theory Spec2Isabelle
  imports Complex_Main
begin

section \<open>The processing manager\<close>

text \<open>
  The backend of the repository (the processing manager with its work queue, worker loop
  and progress aggregator, and the endpoints that start and stop a job) is not among the
  sources; only the frontend that calls it and the documents that describe its interface
  are. This part models it from the specification.
\<close>

text \<open>
  Modelled from the spec: the stages of a Job (data model: \<^verbatim>\<open>stage: {Idle,
  LoadingModel, Processing, Complete, Error, Stopped}\<close>); the backend module that
  owns the job state is not among the sources.
\<close>

datatype JobStage = Idle | LoadingModel | Processing | Complete | Error | Stopped

text \<open>
  Modelled from the spec: the status of a Task (data model: \<^verbatim>\<open>status:
  {Queued, Assigned, Extracting, Encoding, Generating, Done, Failed}\<close>); the backend
  task bookkeeping is not among the sources.
\<close>

datatype TaskStatus = Queued | Assigned | Extracting | Encoding | Generating | Done | Failed

text \<open>
  Modelled from the spec: the three failures of the pipeline collaborators
  (\<^verbatim>\<open>DecodeError\<close>, \<^verbatim>\<open>GenerationError\<close>,
  \<^verbatim>\<open>IOError\<close>), each with its message; the backend pipeline is not
  among the sources.
\<close>

datatype PipelineError = DecodeError string | GenerationError string | IOError string

text \<open>
  Modelled from the spec: the message captured from a pipeline failure, recorded on the
  failed Task; the backend pipeline is not among the sources.
\<close>

fun error_text :: "PipelineError \<Rightarrow> string" where
  "error_text (DecodeError msg) = msg"
| "error_text (GenerationError msg) = msg"
| "error_text (IOError msg) = msg"

text \<open>
  Modelled from the spec: the operational errors of the callers, rejected synchronously
  with no state change: starting a Job while one is active, stopping when none is active;
  the backend endpoints are not among the sources.
\<close>

datatype OperationalError = JobConflict | NotRunning

text \<open>
  Modelled from the spec: the two stop policies the specification allows an implementer to
  choose between: let the current task finish, or abort it as Failed with reason stopped;
  the backend stop handling is not among the sources.
\<close>

datatype StopPolicy = FinishCurrent | AbortCurrent

text \<open>
  Modelled from the spec: a Task with its video name, status, back-reference to the worker
  it was assigned to, and error message (token count and elapsed time play no part here);
  the backend task record is not among the sources.
\<close>

record Task =
  video_name :: string
  status :: TaskStatus
  assigned_worker :: "nat option"
  error :: "string option"

text \<open>
  Modelled from the spec: a Worker bound to one device and holding at most one Task,
  referred to by its position in the task list; its identifier is its position in the pool
  (substage and substage progress mirror the status of the held task and are left out); the
  backend worker is not among the sources.
\<close>

record Worker =
  device_identifier :: string
  current_task :: "nat option"

text \<open>
  Modelled from the spec: the pipeline collaborators, consumed as pure functions: frame
  extraction from a video, caption generation from the frames, and persisting the caption
  of a video; they and the backend code that calls them are not among the sources.
\<close>

record Collaborators =
  extract_frames :: "string \<Rightarrow> PipelineError + nat"
  generate_caption :: "nat \<Rightarrow> PipelineError + string"
  persist_caption :: "string \<Rightarrow> string \<Rightarrow> PipelineError option"

text \<open>
  Modelled from the spec: the manager instance holding the selected devices, the stage of
  the current Job, its tasks in the order requested (the Work Queue is the part still
  Queued), the worker pool, the counters of the Aggregator, the shared cancellation flag
  and the error message; the field \<^verbatim>\<open>pulled\<close> is a history of what
  pull handed out (worker, task), kept to state that no task is handed out twice. The
  backend processing manager is not among the sources.
\<close>

record Manager =
  devices :: "string list"
  job_stage :: JobStage
  tasks :: "Task list"
  pool :: "Worker list"
  total :: nat
  completed :: nat
  failed :: nat
  cancel_flag :: bool
  job_error :: "string option"
  pulled :: "(nat \<times> nat) list"

text \<open>
  Modelled from the spec: the payload of the stop response, \<^verbatim>\<open>{
  videos_completed, videos_remaining }\<close>; the backend stop endpoint is not among the
  sources.
\<close>

record StopResponse =
  videos_completed :: nat
  videos_remaining :: nat

text \<open>
  Modelled from the spec: what can happen to the manager: a start request with the
  requested videos, readiness of all model instances, a job-fatal condition, a stop
  request, and one step of the loop of one worker; the backend event handling is not among
  the sources.
\<close>

datatype Event = Start "string list" | ModelsReady | Fatal string | Stop | WorkerStep nat

text \<open>
  Modelled from the spec: the manager before any Job, in stage Idle; the backend manager is
  not among the sources.
\<close>

definition init :: "string list \<Rightarrow> Manager" where
  "init devs =
     \<lparr>devices = devs, job_stage = Idle, tasks = [], pool = [], total = 0, completed = 0,
      failed = 0, cancel_flag = False, job_error = None, pulled = []\<rparr>"

text \<open>
  Modelled from the spec: a Job is active while its stage is LoadingModel or Processing;
  the backend manager is not among the sources.
\<close>

definition active :: "Manager \<Rightarrow> bool" where
  "active m = (job_stage m = LoadingModel \<or> job_stage m = Processing)"


text \<open>
  Modelled from the spec: a Task as created when the Job is built from the requested list:
  Queued, unassigned, without error; the backend job construction is not among the sources.
\<close>

definition new_task :: "string \<Rightarrow> Task" where
  "new_task v = \<lparr>video_name = v, status = Queued, assigned_worker = None, error = None\<rparr>"

text \<open>
  Modelled from the spec: a Worker as created when a Job starts: bound to its device,
  holding no task; the backend worker pool is not among the sources.
\<close>

definition new_worker :: "string \<Rightarrow> Worker" where
  "new_worker d = \<lparr>device_identifier = d, current_task = None\<rparr>"

text \<open>
  Modelled from the spec: the start request. While a Job is active it is rejected as a job
  conflict; otherwise a new Job is created from the requested videos with one worker per
  selected device, and enters LoadingModel. The backend start endpoint is not among the
  sources.
\<close>

definition start_job :: "Manager \<Rightarrow> string list \<Rightarrow> OperationalError + Manager" where
  "start_job m names =
     (if active m then Inl JobConflict
      else Inr (m\<lparr>job_stage := LoadingModel, tasks := map new_task names,
                  pool := map new_worker (devices m), total := length names, completed := 0,
                  failed := 0, cancel_flag := False, job_error := None, pulled := []\<rparr>))"

text \<open>
  Modelled from the spec: the transition from LoadingModel to Processing once every model
  instance is ready; the backend model loading is not among the sources.
\<close>

definition models_ready :: "Manager \<Rightarrow> Manager" where
  "models_ready m = (if job_stage m = LoadingModel then m\<lparr>job_stage := Processing\<rparr> else m)"

text \<open>
  Modelled from the spec: a job-fatal condition drives an active Job to Error, instructs
  all workers to stop and records the error message; the backend error handling is not
  among the sources.
\<close>

definition job_fatal :: "string \<Rightarrow> Manager \<Rightarrow> Manager" where
  "job_fatal msg m =
     (if active m then m\<lparr>job_stage := Error, cancel_flag := True, job_error := Some msg\<rparr> else m)"

text \<open>
  Modelled from the spec: the stop request sets the shared cancellation flag of an active
  Job; stopping when no Job is active is rejected with no state change. The backend stop
  endpoint is not among the sources.
\<close>

definition stop_job :: "Manager \<Rightarrow> OperationalError + Manager" where
  "stop_job m = (if active m then Inr (m\<lparr>cancel_flag := True\<rparr>) else Inl NotRunning)"

text \<open>
  Modelled from the spec: the next Queued task in the order of the input, if any; the
  backend work queue is not among the sources.
\<close>

fun next_queued :: "Task list \<Rightarrow> nat option" where
  "next_queued [] = None"
| "next_queued (t # ts) = (if status t = Queued then Some 0 else map_option Suc (next_queued ts))"

text \<open>
  Modelled from the spec: \<^verbatim>\<open>pull()\<close> of the Work Queue, for the
  calling worker: it returns the next Queued task and marks it Assigned in the same atomic
  step, or signals that the queue is empty; the backend work queue is not among the
  sources.
\<close>

definition pull :: "nat \<Rightarrow> Task list \<Rightarrow> nat option \<times> Task list" where
  "pull w ts =
     (case next_queued ts of
        None \<Rightarrow> (None, ts)
      | Some i \<Rightarrow> (Some i, ts[i := (ts ! i)\<lparr>status := Assigned, assigned_worker := Some w\<rparr>]))"

text \<open>
  Modelled from the spec: the pipeline of one task, in order: frame extraction, caption
  generation, persisting the caption; the first failure is the outcome. The backend
  pipeline is not among the sources.
\<close>

definition run_pipeline :: "Collaborators \<Rightarrow> string \<Rightarrow> PipelineError + string" where
  "run_pipeline C v =
     (case extract_frames C v of
        Inl e \<Rightarrow> Inl e
      | Inr frames \<Rightarrow>
          (case generate_caption C frames of
             Inl e \<Rightarrow> Inl e
           | Inr text \<Rightarrow>
               (case persist_caption C v text of Some e \<Rightarrow> Inl e | None \<Rightarrow> Inr text)))"

text \<open>
  Modelled from the spec: the status mirror of a Task, written by the worker that holds it;
  the backend task bookkeeping is not among the sources.
\<close>

definition set_status :: "nat \<Rightarrow> TaskStatus \<Rightarrow> Manager \<Rightarrow> Manager" where
  "set_status i s m = m\<lparr>tasks := (tasks m)[i := (tasks m ! i)\<lparr>status := s\<rparr>]\<rparr>"

text \<open>
  Modelled from the spec: a worker gives up its current task; the backend worker loop is
  not among the sources.
\<close>

definition release :: "nat \<Rightarrow> Manager \<Rightarrow> Manager" where
  "release w m = m\<lparr>pool := (pool m)[w := (pool m ! w)\<lparr>current_task := None\<rparr>]\<rparr>"

text \<open>
  Modelled from the spec: on pipeline success the Task is marked Done, the completed
  counter is incremented and the worker is free again; the backend worker loop is not among
  the sources.
\<close>

definition task_done :: "nat \<Rightarrow> nat \<Rightarrow> Manager \<Rightarrow> Manager" where
  "task_done w i m = release w ((set_status i Done m)\<lparr>completed := completed m + 1\<rparr>)"

text \<open>
  Modelled from the spec: on a failure of this task it is marked Failed with the captured
  error, the failed counter is incremented and the worker continues with the next pull; the
  backend worker loop is not among the sources.
\<close>

definition task_failed :: "nat \<Rightarrow> nat \<Rightarrow> string \<Rightarrow> Manager \<Rightarrow> Manager" where
  "task_failed w i e m =
     release w
       (m\<lparr>tasks := (tasks m)[i := (tasks m ! i)\<lparr>status := Failed, error := Some e\<rparr>],
          failed := failed m + 1\<rparr>)"

text \<open>
  Modelled from the spec: the next pipeline stage of the task a worker holds: from Assigned
  to frame extraction, to encoding, to generation, and on to Done, or to Failed where
  extraction, generation or persisting fails; the backend worker loop is not among the
  sources.
\<close>

definition advance :: "Collaborators \<Rightarrow> nat \<Rightarrow> nat \<Rightarrow> Manager \<Rightarrow> Manager" where
  "advance C w i m =
     (case status (tasks m ! i) of
        Assigned \<Rightarrow> set_status i Extracting m
      | Extracting \<Rightarrow>
          (case extract_frames C (video_name (tasks m ! i)) of
             Inl e \<Rightarrow> task_failed w i (error_text e) m
           | Inr frames \<Rightarrow> set_status i Encoding m)
      | Encoding \<Rightarrow> set_status i Generating m
      | Generating \<Rightarrow>
          (case run_pipeline C (video_name (tasks m ! i)) of
             Inl e \<Rightarrow> task_failed w i (error_text e) m
           | Inr text \<Rightarrow> task_done w i m)
      | _ \<Rightarrow> m)"

text \<open>
  Modelled from the spec: a worker takes the task that pull returned as its current task;
  the backend worker loop is not among the sources.
\<close>

definition hold :: "nat \<Rightarrow> nat \<Rightarrow> Manager \<Rightarrow> Manager" where
  "hold w i m = m\<lparr>pool := (pool m)[w := (pool m ! w)\<lparr>current_task := Some i\<rparr>]\<rparr>"

text \<open>
  Modelled from the spec: one step of the loop of a worker. Workers run only while the Job
  is Processing. A free worker pulls the next task unless the cancellation flag is set; a
  worker holding a task moves it one pipeline stage on, or, under the abort policy with the
  flag set, fails it with reason stopped. The backend worker loop is not among the sources.
\<close>

definition worker_step :: "Collaborators \<Rightarrow> StopPolicy \<Rightarrow> nat \<Rightarrow> Manager \<Rightarrow> Manager" where
  "worker_step C pol w m =
     (if job_stage m \<noteq> Processing \<or> length (pool m) \<le> w then m
      else
        (case current_task (pool m ! w) of
           None \<Rightarrow>
             (if cancel_flag m then m
              else
                (case pull w (tasks m) of
                   (None, ts) \<Rightarrow> m
                 | (Some i, ts) \<Rightarrow> hold w i (m\<lparr>tasks := ts, pulled := pulled m @ [(w, i)]\<rparr>)))
         | Some i \<Rightarrow>
             (if cancel_flag m \<and> pol = AbortCurrent
              then task_failed w i ''stopped'' m
              else advance C w i m)))"

text \<open>
  Modelled from the spec: a Task is finished once it is Done or Failed; the backend task
  bookkeeping is not among the sources.
\<close>

definition finished :: "TaskStatus \<Rightarrow> bool" where
  "finished s = (s = Done \<or> s = Failed)"

text \<open>
  Modelled from the spec: the remaining count: the tasks that are neither Done nor Failed;
  the backend aggregator is not among the sources.
\<close>

definition remaining :: "Manager \<Rightarrow> nat" where
  "remaining m = length (filter (\<lambda>t. \<not> finished (status t)) (tasks m))"

text \<open>
  Modelled from the spec: no worker is still active; the backend worker pool is not among
  the sources.
\<close>

definition all_idle :: "Manager \<Rightarrow> bool" where
  "all_idle m = list_all (\<lambda>w. current_task w = None) (pool m)"

text \<open>
  Modelled from the spec: the transitions out of Processing: to Complete exactly when
  nothing remains and no worker is active, to Stopped when a stop was requested and every
  worker has left its loop; the backend state machine is not among the sources.
\<close>

definition settle :: "Manager \<Rightarrow> Manager" where
  "settle m =
     (if job_stage m = Processing \<and> all_idle m
      then (if remaining m = 0 then m\<lparr>job_stage := Complete\<rparr>
            else if cancel_flag m then m\<lparr>job_stage := Stopped\<rparr>
            else m)
      else m)"

text \<open>
  Modelled from the spec: the effect of one event, or the error it is rejected with; the
  backend event handling is not among the sources.
\<close>

definition handle :: "Collaborators \<Rightarrow> StopPolicy \<Rightarrow> Manager \<Rightarrow> Event \<Rightarrow> OperationalError + Manager" where
  "handle C pol m e =
     (case e of
        Start names \<Rightarrow> start_job m names
      | ModelsReady \<Rightarrow> Inr (models_ready m)
      | Fatal msg \<Rightarrow> Inr (job_fatal msg m)
      | Stop \<Rightarrow> stop_job m
      | WorkerStep w \<Rightarrow> Inr (worker_step C pol w m))"

text \<open>
  Modelled from the spec: one event applied to the manager: a rejected request leaves the
  state as it was, any other event is followed by the transitions of the state machine; the
  backend event handling is not among the sources.
\<close>

definition step :: "Collaborators \<Rightarrow> StopPolicy \<Rightarrow> Manager \<Rightarrow> Event \<Rightarrow> Manager" where
  "step C pol m e = (case handle C pol m e of Inl err \<Rightarrow> m | Inr m' \<Rightarrow> settle m')"

text \<open>
  Modelled from the spec: a sequence of events, in any interleaving of the workers, applied
  from left to right; the backend scheduling is not among the sources.
\<close>

definition run :: "Collaborators \<Rightarrow> StopPolicy \<Rightarrow> Manager \<Rightarrow> Event list \<Rightarrow> Manager" where
  "run C pol m evs = foldl (step C pol) m evs"

text \<open>
  Modelled from the spec: the stop response reports the completed count and the remaining
  count of the current counters; the backend stop endpoint is not among the sources.
\<close>

definition stop_response :: "Manager \<Rightarrow> StopResponse" where
  "stop_response m = \<lparr>videos_completed = completed m, videos_remaining = remaining m\<rparr>"

section \<open>Invariants and measures of the processing manager\<close>

definition count_status :: "TaskStatus \<Rightarrow> Task list \<Rightarrow> nat" where
  "count_status s ts = length (filter (\<lambda>t. status t = s) ts)"

definition in_flight :: "TaskStatus \<Rightarrow> bool" where
  "in_flight s = (s = Assigned \<or> s = Extracting \<or> s = Encoding \<or> s = Generating)"

definition holds_ok :: "Manager \<Rightarrow> bool" where
  "holds_ok m =
     (\<forall>w<length (pool m). \<forall>i. current_task (pool m ! w) = Some i \<longrightarrow>
        i < length (tasks m) \<and> in_flight (status (tasks m ! i))
        \<and> assigned_worker (tasks m ! i) = Some w)"

definition counters_ok :: "Manager \<Rightarrow> bool" where
  "counters_ok m =
     (total m = length (tasks m) \<and> completed m = count_status Done (tasks m)
      \<and> failed m = count_status Failed (tasks m))"

definition consistent :: "Manager \<Rightarrow> bool" where
  "consistent m = (counters_ok m \<and> holds_ok m)"

definition log_ok :: "Manager \<Rightarrow> bool" where
  "log_ok m =
     (distinct (map snd (pulled m))
      \<and> (\<forall>p\<in>set (pulled m). snd p < length (tasks m) \<and> status (tasks m ! snd p) \<noteq> Queued))"

text \<open>Apart from a pull, no operation queues a task again or shortens the task list.\<close>

definition keeps_log :: "Manager \<Rightarrow> Manager \<Rightarrow> bool" where
  "keeps_log m m' =
     (pulled m' = pulled m \<and> length (tasks m') = length (tasks m)
      \<and> (\<forall>j<length (tasks m). status (tasks m ! j) \<noteq> Queued \<longrightarrow> status (tasks m' ! j) \<noteq> Queued))"

definition complete_ok :: "Manager \<Rightarrow> bool" where
  "complete_ok m = (job_stage m = Complete \<longrightarrow> remaining m = 0)"

fun weight :: "TaskStatus \<Rightarrow> nat" where
  "weight Queued = 5"
| "weight Assigned = 4"
| "weight Extracting = 3"
| "weight Encoding = 2"
| "weight Generating = 1"
| "weight Done = 0"
| "weight Failed = 0"

definition work_left :: "Manager \<Rightarrow> nat" where
  "work_left m = sum_list (map (\<lambda>t. weight (status t)) (tasks m))"

definition covered :: "Manager \<Rightarrow> bool" where
  "covered m =
     (\<forall>i<length (tasks m). in_flight (status (tasks m ! i)) \<longrightarrow>
        (\<exists>w<length (pool m). current_task (pool m ! w) = Some i))"

definition decode_fails :: "Collaborators \<Rightarrow> string \<Rightarrow> bool" where
  "decode_fails C v = isl (extract_frames C v)"

definition pipeline_fails :: "Collaborators \<Rightarrow> string \<Rightarrow> bool" where
  "pipeline_fails C v = isl (run_pipeline C v)"

definition outcome_ok :: "Collaborators \<Rightarrow> Manager \<Rightarrow> bool" where
  "outcome_ok C m =
     (\<forall>t\<in>set (tasks m).
        (status t = Done \<longrightarrow> \<not> pipeline_fails C (video_name t))
        \<and> (status t = Failed \<longrightarrow> pipeline_fails C (video_name t)))"

fun is_worker_step :: "Event \<Rightarrow> bool" where
  "is_worker_step (WorkerStep w) = True"
| "is_worker_step e = False"

definition round_robin :: "nat \<Rightarrow> nat \<Rightarrow> Event list" where
  "round_robin n k = concat (replicate k (map WorkerStep [0..<n]))"

definition running :: "Collaborators \<Rightarrow> nat \<Rightarrow> string list \<Rightarrow> Manager \<Rightarrow> bool" where
  "running C n names m =
     (consistent m \<and> covered m \<and> outcome_ok C m \<and> complete_ok m \<and> \<not> cancel_flag m
      \<and> length (pool m) = n \<and> map video_name (tasks m) = names
      \<and> (job_stage m = Processing \<or> job_stage m = Complete)
      \<and> (job_stage m = Processing \<longrightarrow> \<not> (all_idle m \<and> remaining m = 0)))"

definition effect :: "Collaborators \<Rightarrow> nat \<Rightarrow> Manager \<Rightarrow> Manager \<Rightarrow> bool" where
  "effect C w m m' =
     (\<exists>i t c.
        i < length (tasks m) \<and> tasks m' = (tasks m)[i := t]
        \<and> pool m' = (pool m)[w := (pool m ! w)\<lparr>current_task := c\<rparr>]
        \<and> cancel_flag m' = cancel_flag m \<and> job_stage m' = job_stage m
        \<and> video_name t = video_name (tasks m ! i)
        \<and> weight (status t) < weight (status (tasks m ! i))
        \<and> (current_task (pool m ! w) = Some i
             \<or> current_task (pool m ! w) = None \<and> status (tasks m ! i) = Queued)
        \<and> (c = Some i \<and> in_flight (status t)
             \<or> c = None
                \<and> (status t = Done \<and> \<not> pipeline_fails C (video_name t)
                     \<or> status t = Failed \<and> pipeline_fails C (video_name t))))"

section \<open>Example jobs\<close>

definition sample_collaborators :: Collaborators where
  "sample_collaborators =
     \<lparr>extract_frames =
        (\<lambda>v. if v = ''bad.mp4'' then Inl (DecodeError ''cannot decode'') else Inr 8),
      generate_caption = (\<lambda>frames. Inr ''a caption''),
      persist_caption = (\<lambda>v text. None)\<rparr>"

definition sample_videos :: "string list" where
  "sample_videos = [''a.mp4'', ''bad.mp4'', ''c.mp4'']"

definition two_workers_busy :: Manager where
  "two_workers_busy =
     run sample_collaborators FinishCurrent (init [''cuda:0'', ''cuda:1''])
       [Start sample_videos, ModelsReady, WorkerStep 0, WorkerStep 1]"

definition stopped_job :: Manager where
  "stopped_job =
     run sample_collaborators FinishCurrent (init [''cuda:0''])
       ([Start sample_videos, ModelsReady] @ replicate 5 (WorkerStep 0) @ [Stop])"



section \<open>Frontend progress types (frontend/src/types/progress.ts)\<close>

text \<open>
  The string-literal union \<^verbatim>\<open>ProcessingStage\<close> has five members; each constructor stands
  for one literal, and \<open>stage_literal\<close> gives the literal it is written as.
\<close>

datatype ProcessingStage =
  Stage_idle | Stage_loading_model | Stage_processing | Stage_complete | Stage_error

fun stage_literal :: "ProcessingStage \<Rightarrow> string" where
  "stage_literal Stage_idle = ''idle''"
| "stage_literal Stage_loading_model = ''loading_model''"
| "stage_literal Stage_processing = ''processing''"
| "stage_literal Stage_complete = ''complete''"
| "stage_literal Stage_error = ''error''"

datatype ProcessingSubstage =
  Sub_idle | Sub_extracting_frames | Sub_encoding | Sub_generating

text \<open>
  A TypeScript \<^verbatim>\<open>number\<close> is modelled as a real (rounding is not modelled); a value of
  type \<^verbatim>\<open>string | null\<close> as a \<open>string option\<close>.
\<close>

record WorkerProgress =
  worker_id :: real
  device :: string
  current_video :: "string option"
  substage :: ProcessingSubstage
  substage_progress :: real

text \<open>
  An incoming message may carry only some of the fields of \<^verbatim>\<open>ProgressState\<close>: every field
  is optional, \<open>None\<close> meaning that the object has no such key.
\<close>

record PartialProgressState =
  stage :: "ProcessingStage option"
  current_video :: "string option option"
  video_index :: "real option"
  total_videos :: "real option"
  tokens_generated :: "real option"
  tokens_per_sec :: "real option"
  model_loaded :: "bool option"
  vram_used_gb :: "real option"
  substage :: "ProcessingSubstage option"
  substage_progress :: "real option"
  error_message :: "string option option"
  elapsed_time :: "real option"
  batch_size :: "real option"
  workers :: "WorkerProgress list option"
  completed_videos :: "real option"

record ProgressState =
  stage :: ProcessingStage
  current_video :: "string option"
  video_index :: real
  total_videos :: real
  tokens_generated :: real
  tokens_per_sec :: real
  model_loaded :: bool
  vram_used_gb :: real
  substage :: ProcessingSubstage
  substage_progress :: real
  error_message :: "string option"
  elapsed_time :: real
  batch_size :: real
  workers :: "WorkerProgress list"
  completed_videos :: real


definition initialProgressState :: ProgressState where
  "initialProgressState =
     \<lparr>stage = Stage_idle,
      current_video = None,
      video_index = 0,
      total_videos = 0,
      tokens_generated = 0,
      tokens_per_sec = 0,
      model_loaded = False,
      vram_used_gb = 0,
      substage = Sub_idle,
      substage_progress = 0,
      error_message = None,
      elapsed_time = 0,
      batch_size = 1,
      workers = [],
      completed_videos = 0\<rparr>"

section \<open>The progress store (stores/progressStore.ts)\<close>

record ProgressStore =
  state :: ProgressState
  wsConnected :: bool

definition isIdle :: "ProgressState \<Rightarrow> bool" where
  "isIdle st = (stage st = Stage_idle)"

definition isLoadingModel :: "ProgressState \<Rightarrow> bool" where
  "isLoadingModel st = (stage st = Stage_loading_model)"

definition isProcessing :: "ProgressState \<Rightarrow> bool" where
  "isProcessing st = (stage st = Stage_processing)"

definition isComplete :: "ProgressState \<Rightarrow> bool" where
  "isComplete st = (stage st = Stage_complete)"

definition hasError :: "ProgressState \<Rightarrow> bool" where
  "hasError st = (stage st = Stage_error)"

text \<open>
  JavaScript truthiness of a \<^verbatim>\<open>string | null\<close>: \<^verbatim>\<open>null\<close> and the empty string are falsy.
\<close>

fun truthy :: "string option \<Rightarrow> bool" where
  "truthy None = False"
| "truthy (Some s) = (s \<noteq> [])"

text \<open>
  The reals have no \<^verbatim>\<open>Infinity\<close> and no \<^verbatim>\<open>NaN\<close>, and \<open>x / 0 = 0\<close> in HOL. A JavaScript
  division is therefore a partial operation here: \<open>None\<close> stands for the non-finite result
  of a division by zero.
\<close>

definition js_div :: "real \<Rightarrow> real \<Rightarrow> real option" where
  "js_div a b = (if b = 0 then None else Some (a / b))"

text \<open>
  The getter \<^verbatim>\<open>overallProgress\<close>, statement by statement. The field \<^verbatim>\<open>workers\<close> is an
  array, which is truthy also when empty, so only the length test of the guard remains;
  \<^verbatim>\<open>reduce\<close> with initial value 0 is a left fold.
\<close>

definition overallProgress :: "ProgressState \<Rightarrow> real option" where
  "overallProgress st =
     (if total_videos st = 0 then Some 0
      else
        (case js_div (completed_videos st) (total_videos st) of
           None \<Rightarrow> None
         | Some completedProgress \<Rightarrow>
            (case
               (if length (workers st) > 0
                then
                  (let activeWorkers =
                     filter (\<lambda>w. truthy (WorkerProgress.current_video w)) (workers st)
                   in js_div
                        (foldl (\<lambda>sum w. sum + WorkerProgress.substage_progress w) 0 activeWorkers)
                        (total_videos st))
                else js_div (substage_progress st) (total_videos st))
             of
               None \<Rightarrow> None
             | Some activeProgress \<Rightarrow>
                 Some (min 100 ((completedProgress + activeProgress) * 100)))))"

text \<open>
  Object spread \<^verbatim>\<open>{ ...state.value, ...data }\<close>: a key of the later object overrides the
  same key of the earlier one, every other key is copied from the earlier one.
\<close>

definition spread_field :: "'a \<Rightarrow> 'a option \<Rightarrow> 'a" where
  "spread_field old incoming = (case incoming of None \<Rightarrow> old | Some v \<Rightarrow> v)"

definition spread :: "ProgressState \<Rightarrow> PartialProgressState \<Rightarrow> ProgressState" where
  "spread st data =
     \<lparr>stage = spread_field (stage st) (PartialProgressState.stage data),
      current_video = spread_field (current_video st) (PartialProgressState.current_video data),
      video_index = spread_field (video_index st) (PartialProgressState.video_index data),
      total_videos = spread_field (total_videos st) (PartialProgressState.total_videos data),
      tokens_generated =
        spread_field (tokens_generated st) (PartialProgressState.tokens_generated data),
      tokens_per_sec = spread_field (tokens_per_sec st) (PartialProgressState.tokens_per_sec data),
      model_loaded = spread_field (model_loaded st) (PartialProgressState.model_loaded data),
      vram_used_gb = spread_field (vram_used_gb st) (PartialProgressState.vram_used_gb data),
      substage = spread_field (substage st) (PartialProgressState.substage data),
      substage_progress =
        spread_field (substage_progress st) (PartialProgressState.substage_progress data),
      error_message = spread_field (error_message st) (PartialProgressState.error_message data),
      elapsed_time = spread_field (elapsed_time st) (PartialProgressState.elapsed_time data),
      batch_size = spread_field (batch_size st) (PartialProgressState.batch_size data),
      workers = spread_field (workers st) (PartialProgressState.workers data),
      completed_videos =
        spread_field (completed_videos st) (PartialProgressState.completed_videos data)\<rparr>"

definition updateFromWebSocket :: "ProgressStore \<Rightarrow> PartialProgressState \<Rightarrow> ProgressStore" where
  "updateFromWebSocket s data = s\<lparr>state := spread (state s) data\<rparr>"

definition setWsConnected :: "ProgressStore \<Rightarrow> bool \<Rightarrow> ProgressStore" where
  "setWsConnected s conn = s\<lparr>wsConnected := conn\<rparr>"

definition reset :: "ProgressStore \<Rightarrow> ProgressStore" where
  "reset s = s\<lparr>state := initialProgressState\<rparr>"


section \<open>The aggregation formula in the words of the specification\<close>

text \<open>
  The summed progress of the active workers: a worker is active when it has a current
  video; with no workers listed, the single field \<^verbatim>\<open>substage_progress\<close> is used instead.
\<close>

definition active_progress_sum :: "ProgressState \<Rightarrow> real" where
  "active_progress_sum st =
     (if workers st = [] then substage_progress st
      else sum_list (map WorkerProgress.substage_progress
             (filter (\<lambda>w. truthy (WorkerProgress.current_video w)) (workers st))))"

text \<open>
  The value the specification gives for the overall progress: the completed share plus
  the active share, clamped to the unit interval.
\<close>

definition overall_progress_spec :: "ProgressState \<Rightarrow> real" where
  "overall_progress_spec st =
     max 0 (min 1 (completed_videos st / total_videos st
                   + active_progress_sum st / total_videos st))"

section \<open>Example progress states\<close>

definition worker_a :: WorkerProgress where
  "worker_a =
     \<lparr>worker_id = 0, device = ''cuda:0'', WorkerProgress.current_video = Some ''a.mp4'',
      WorkerProgress.substage = Sub_generating, WorkerProgress.substage_progress = 1 / 2\<rparr>"

definition worker_b :: WorkerProgress where
  "worker_b =
     \<lparr>worker_id = 1, device = ''cuda:1'', WorkerProgress.current_video = None,
      WorkerProgress.substage = Sub_idle, WorkerProgress.substage_progress = 1\<rparr>"

definition half_done_state :: ProgressState where
  "half_done_state =
     initialProgressState\<lparr>stage := Stage_processing, total_videos := 2, completed_videos := 1\<rparr>"

definition busy_state :: ProgressState where
  "busy_state =
     initialProgressState
       \<lparr>stage := Stage_processing, total_videos := 4, batch_size := 2,
        workers := [worker_a, worker_b], completed_videos := 1\<rparr>"

definition overcounted_state :: ProgressState where
  "overcounted_state =
     initialProgressState
       \<lparr>stage := Stage_processing, total_videos := 1, workers := [worker_a],
        completed_videos := 101\<rparr>"

definition undercounted_state :: ProgressState where
  "undercounted_state =
     initialProgressState
       \<lparr>stage := Stage_processing, total_videos := 1, workers := [worker_a],
        completed_videos := - 1\<rparr>"

definition regressed_state :: ProgressState where
  "regressed_state =
     initialProgressState
       \<lparr>stage := Stage_processing, total_videos := 2, substage_progress := - 1,
        completed_videos := 1\<rparr>"

definition connected_store :: ProgressStore where
  "connected_store = \<lparr>state = busy_state, wsConnected = True\<rparr>"

definition counters_message :: PartialProgressState where
  "counters_message =
     \<lparr>PartialProgressState.stage = None,
      PartialProgressState.current_video = Some None,
      PartialProgressState.video_index = None,
      PartialProgressState.total_videos = None,
      PartialProgressState.tokens_generated = Some 12,
      PartialProgressState.tokens_per_sec = None,
      PartialProgressState.model_loaded = None,
      PartialProgressState.vram_used_gb = None,
      PartialProgressState.substage = None,
      PartialProgressState.substage_progress = None,
      PartialProgressState.error_message = None,
      PartialProgressState.elapsed_time = None,
      PartialProgressState.batch_size = None,
      PartialProgressState.workers = None,
      PartialProgressState.completed_videos = Some 2\<rparr>"

text \<open>
  The frame condition of one field: a field present in the message takes the incoming
  value, an absent field keeps the stored one.
\<close>

definition field_framed :: "'a option \<Rightarrow> 'a \<Rightarrow> 'a \<Rightarrow> bool" where
  "field_framed incoming old new =
     ((\<forall>v. incoming = Some v \<longrightarrow> new = v) \<and> (incoming = None \<longrightarrow> new = old))"

section \<open>Properties of the progress store\<close>

lemma foldl_add_sum_list:
  "foldl (\<lambda>sum w. sum + f w) (a::real) ws = a + sum_list (map f ws)"
  by (induction ws arbitrary: a) simp_all

lemma overallProgress_nonzero:
  "total_videos st \<noteq> 0 \<Longrightarrow>
   overallProgress st =
     Some (min 100 ((completed_videos st / total_videos st
                     + active_progress_sum st / total_videos st) * 100))"
  by (simp add: overallProgress_def js_div_def active_progress_sum_def foldl_add_sum_list)

lemma active_progress_sum_completed:
  "active_progress_sum (st\<lparr>completed_videos := c'\<rparr>) = active_progress_sum st"
  by (simp add: active_progress_sum_def)

lemma percent_floor:
  "0 \<le> x \<Longrightarrow> x \<le> 100 \<Longrightarrow> 0 \<le> y \<Longrightarrow> x \<le> min 100 ((x + y) * 100)"
  for x y :: real
  by (auto simp: min_def algebra_simps)

lemma percent_mono:
  "x \<le> x' \<Longrightarrow> min 100 ((x + y) * 100) \<le> min 100 ((x' + y) * 100)" for x y :: real
  by (auto simp: min_def algebra_simps)

lemma percent_range:
  "0 \<le> x \<Longrightarrow> 0 \<le> y \<Longrightarrow>
   0 \<le> min 100 ((x + y) * 100) \<and> min 100 ((x + y) * 100) \<le> 100" for x y :: real
  by (auto simp: min_def algebra_simps)

lemma ProcessingStage_UNIV:
  "(UNIV :: ProcessingStage set) =
     {Stage_idle, Stage_loading_model, Stage_processing, Stage_complete, Stage_error}"
  by (auto intro: ProcessingStage.exhaust)

lemma range_stage_literal:
  "range stage_literal = {''idle'', ''loading_model'', ''processing'', ''complete'', ''error''}"
  by (simp add: ProcessingStage_UNIV)

text \<open>
  C1 (as stated): with \<open>total_videos > 0\<close> the overall progress is the completed share plus
  the active share, clamped to the unit interval. It fails on the getter: at two videos
  of which one is completed and no worker is listed the getter returns 50, while the
  stated formula gives one half.
\<close>

theorem overallProgress_unit_interval_counterexample:
  "0 < total_videos half_done_state
   \<and> overallProgress half_done_state = Some 50
   \<and> overall_progress_spec half_done_state = 1 / 2
   \<and> overallProgress half_done_state \<noteq> Some (overall_progress_spec half_done_state)"
  by (simp add: overallProgress_def js_div_def overall_progress_spec_def
      active_progress_sum_def half_done_state_def initialProgressState_def)

text \<open>
  C1 (amended): with \<open>total_videos > 0\<close> the getter returns a percentage, one hundred times
  the completed share plus the active share, capped above at 100; there is no lower
  clamp, and the result lies between 0 and 100 whenever the completed count and the
  summed progress of the active workers are not negative.
\<close>

theorem overallProgress_percent:
  assumes "0 < total_videos st"
  shows "overallProgress st =
           Some (min 100 (100 * (completed_videos st / total_videos st
                                 + active_progress_sum st / total_videos st)))
         \<and> (0 \<le> completed_videos st \<and> 0 \<le> active_progress_sum st \<longrightarrow>
              (\<exists>p. overallProgress st = Some p \<and> 0 \<le> p \<and> p \<le> 100))"
proof -
  let ?x = "completed_videos st / total_videos st"
  let ?y = "active_progress_sum st / total_videos st"
  have eq: "overallProgress st = Some (min 100 ((?x + ?y) * 100))"
    using assms by (simp only: overallProgress_nonzero)
  have "0 \<le> min 100 ((?x + ?y) * 100) \<and> min 100 ((?x + ?y) * 100) \<le> 100"
    if "0 \<le> completed_videos st" "0 \<le> active_progress_sum st"
    using that assms by (intro percent_range) simp_all
  with eq show ?thesis by (simp add: mult.commute)
qed

theorem overallProgress_percent_witness:
  "0 < total_videos busy_state
   \<and> active_progress_sum busy_state = 1 / 2
   \<and> overallProgress busy_state = Some (75 / 2)"
  using overallProgress_percent [of busy_state]
  by (simp add: busy_state_def initialProgressState_def active_progress_sum_def
      worker_a_def worker_b_def)

text \<open>
  C2 (as stated): the stage ranges over six values, \<^verbatim>\<open>stopped\<close> among them. The type has
  five members and \<^verbatim>\<open>stopped\<close> is none of them.
\<close>

theorem stage_stopped_counterexample:
  "''stopped'' \<notin> range stage_literal \<and> card (range stage_literal) = 5"
  by (simp add: range_stage_literal)

text \<open>
  C2 (amended): the stage of a progress state ranges over exactly the five values
  \<^verbatim>\<open>idle\<close>, \<^verbatim>\<open>loading_model\<close>, \<^verbatim>\<open>processing\<close>, \<^verbatim>\<open>complete\<close> and \<^verbatim>\<open>error\<close>, each written
  differently, and every progress state satisfies one of the five stage getters of the
  store.
\<close>

theorem stage_five_values:
  "range stage_literal = {''idle'', ''loading_model'', ''processing'', ''complete'', ''error''}
   \<and> inj stage_literal
   \<and> (isIdle st \<or> isLoadingModel st \<or> isProcessing st \<or> isComplete st \<or> hasError st)"
proof -
  have "inj stage_literal"
  proof (rule injI)
    fix x y assume "stage_literal x = stage_literal y"
    then show "x = y" by (cases x; cases y) simp_all
  qed
  moreover have "isIdle st \<or> isLoadingModel st \<or> isProcessing st \<or> isComplete st \<or> hasError st"
    by (cases "stage st")
       (simp_all add: isIdle_def isLoadingModel_def isProcessing_def isComplete_def hasError_def)
  ultimately show ?thesis by (simp only: range_stage_literal simp_thms)
qed

text \<open>
  C4 (as stated): whenever the per-worker progress values lie in the unit interval, the
  overall progress is at least \<open>completed_videos / total_videos\<close>. Four states break it.
  The cap at 100: with one video in total and a completed count of 101 the getter returns
  100, below the floor 101, although the only worker reports one half. A negative
  completed count: with one video in total and a completed count of \<open>- 1\<close> the getter
  returns \<open>- 50\<close>, below the floor \<open>- 1\<close>. The fallback field, which no per-worker bound
  reaches: with no workers listed, two videos of which one is completed and the single
  progress field at \<open>- 1\<close>, the getter returns 0, below the floor one half. And in the
  initial state the floor is the quotient of zero by zero, which is no number.
\<close>

theorem overallProgress_floor_counterexample:
  "workers overcounted_state = [worker_a]
   \<and> 0 \<le> WorkerProgress.substage_progress worker_a
   \<and> WorkerProgress.substage_progress worker_a \<le> 1
   \<and> overallProgress overcounted_state = Some 100
   \<and> completed_videos overcounted_state / total_videos overcounted_state = 101
   \<and> workers undercounted_state = [worker_a]
   \<and> overallProgress undercounted_state = Some (- 50)
   \<and> completed_videos undercounted_state / total_videos undercounted_state = - 1
   \<and> workers regressed_state = []
   \<and> overallProgress regressed_state = Some 0
   \<and> completed_videos regressed_state / total_videos regressed_state = 1 / 2
   \<and> js_div (completed_videos initialProgressState) (total_videos initialProgressState) = None"
  by (simp add: overallProgress_def js_div_def overcounted_state_def undercounted_state_def
      regressed_state_def initialProgressState_def worker_a_def)

text \<open>
  C4 (amended): for every progress state with \<open>total_videos > 0\<close> the overall progress does
  not decrease when the completed count increases, total and worker progress being the
  same; and it is at least the completed floor \<open>completed_videos / total_videos\<close> whenever
  \<open>0 \<le> completed_videos \<le> 100 * total_videos\<close> and the summed progress that the getter adds
  (of the active workers, or of the single fallback field when no workers are listed) is
  not negative, as it is when workers are listed and their progress values lie in the
  unit interval.
\<close>

theorem overallProgress_floor_mono:
  assumes total: "0 < total_videos st"
  shows "\<exists>p p'. overallProgress st = Some p
           \<and> overallProgress (st\<lparr>completed_videos := c'\<rparr>) = Some p'
           \<and> (completed_videos st \<le> c' \<longrightarrow> p \<le> p')
           \<and> (0 \<le> completed_videos st \<and> completed_videos st \<le> 100 * total_videos st
                 \<and> 0 \<le> active_progress_sum st
               \<longrightarrow> completed_videos st / total_videos st \<le> p)
           \<and> (workers st \<noteq> []
                 \<and> (\<forall>w\<in>set (workers st).
                        0 \<le> WorkerProgress.substage_progress w
                        \<and> WorkerProgress.substage_progress w \<le> 1)
               \<longrightarrow> 0 \<le> active_progress_sum st)"
proof -
  let ?t = "total_videos st"
  let ?x = "completed_videos st / ?t"
  let ?y = "active_progress_sum st / ?t"
  let ?p = "min 100 ((?x + ?y) * 100)"
  let ?p' = "min 100 ((c' / ?t + ?y) * 100)"
  have p: "overallProgress st = Some ?p"
    using total by (simp only: overallProgress_nonzero)
  have p': "overallProgress (st\<lparr>completed_videos := c'\<rparr>) = Some ?p'"
    using total by (simp add: overallProgress_nonzero active_progress_sum_completed)
  have mono: "?p \<le> ?p'" if "completed_videos st \<le> c'"
  proof -
    from that total have "?x \<le> c' / ?t" by (simp add: divide_right_mono)
    then show ?thesis by (rule percent_mono)
  qed
  have floor: "?x \<le> ?p"
    if "0 \<le> completed_videos st" "completed_videos st \<le> 100 * total_videos st"
      "0 \<le> active_progress_sum st"
  proof -
    from that total have "0 \<le> ?x" "?x \<le> 100" "0 \<le> ?y"
      by (simp_all add: pos_divide_le_eq)
    then show ?thesis by (rule percent_floor)
  qed
  have sum: "0 \<le> active_progress_sum st"
    if "workers st \<noteq> []"
      "\<forall>w\<in>set (workers st).
         0 \<le> WorkerProgress.substage_progress w \<and> WorkerProgress.substage_progress w \<le> 1"
    using that by (auto simp: active_progress_sum_def intro!: sum_list_nonneg)
  from p p' mono floor sum show ?thesis by blast
qed

theorem overallProgress_floor_mono_witness:
  "0 < total_videos busy_state
   \<and> completed_videos busy_state \<le> 2
   \<and> 0 \<le> completed_videos busy_state
   \<and> completed_videos busy_state \<le> 100 * total_videos busy_state
   \<and> workers busy_state \<noteq> []
   \<and> 0 \<le> active_progress_sum busy_state
   \<and> overallProgress busy_state = Some (75 / 2)
   \<and> overallProgress (busy_state\<lparr>completed_videos := 2\<rparr>) = Some (125 / 2)
   \<and> completed_videos busy_state / total_videos busy_state = 1 / 4"
  using overallProgress_floor_mono [of busy_state 2]
  by (simp add: busy_state_def initialProgressState_def overallProgress_def js_div_def
      active_progress_sum_def worker_a_def worker_b_def)

text \<open>
  C9: with \<open>total_videos = 0\<close> the getter returns 0 before any division, and on every progress
  state it returns a number: no division by zero is ever evaluated.
\<close>

theorem overallProgress_total:
  "(total_videos st = 0 \<longrightarrow> overallProgress st = Some 0)
   \<and> (\<exists>p. overallProgress st = Some p)"
proof (cases "total_videos st = 0")
  case True
  then show ?thesis by (simp add: overallProgress_def)
next
  case False
  then show ?thesis by (simp add: overallProgress_nonzero)
qed

theorem overallProgress_total_witness:
  "total_videos initialProgressState = 0 \<and> overallProgress initialProgressState = Some 0"
  using overallProgress_total [of initialProgressState]
  by (simp add: initialProgressState_def)

text \<open>
  C10: \<^verbatim>\<open>updateFromWebSocket\<close> gives every field present in the message the incoming value
  and leaves every absent field as stored, and it does not touch \<^verbatim>\<open>wsConnected\<close>;
  \<^verbatim>\<open>reset\<close> restores exactly the initial progress state.
\<close>

theorem updateFromWebSocket_frame:
  "wsConnected (updateFromWebSocket s d) = wsConnected s
   \<and> field_framed (PartialProgressState.stage d) (stage (state s))
        (stage (state (updateFromWebSocket s d)))
   \<and> field_framed (PartialProgressState.current_video d) (current_video (state s))
        (current_video (state (updateFromWebSocket s d)))
   \<and> field_framed (PartialProgressState.video_index d) (video_index (state s))
        (video_index (state (updateFromWebSocket s d)))
   \<and> field_framed (PartialProgressState.total_videos d) (total_videos (state s))
        (total_videos (state (updateFromWebSocket s d)))
   \<and> field_framed (PartialProgressState.tokens_generated d) (tokens_generated (state s))
        (tokens_generated (state (updateFromWebSocket s d)))
   \<and> field_framed (PartialProgressState.tokens_per_sec d) (tokens_per_sec (state s))
        (tokens_per_sec (state (updateFromWebSocket s d)))
   \<and> field_framed (PartialProgressState.model_loaded d) (model_loaded (state s))
        (model_loaded (state (updateFromWebSocket s d)))
   \<and> field_framed (PartialProgressState.vram_used_gb d) (vram_used_gb (state s))
        (vram_used_gb (state (updateFromWebSocket s d)))
   \<and> field_framed (PartialProgressState.substage d) (substage (state s))
        (substage (state (updateFromWebSocket s d)))
   \<and> field_framed (PartialProgressState.substage_progress d) (substage_progress (state s))
        (substage_progress (state (updateFromWebSocket s d)))
   \<and> field_framed (PartialProgressState.error_message d) (error_message (state s))
        (error_message (state (updateFromWebSocket s d)))
   \<and> field_framed (PartialProgressState.elapsed_time d) (elapsed_time (state s))
        (elapsed_time (state (updateFromWebSocket s d)))
   \<and> field_framed (PartialProgressState.batch_size d) (batch_size (state s))
        (batch_size (state (updateFromWebSocket s d)))
   \<and> field_framed (PartialProgressState.workers d) (workers (state s))
        (workers (state (updateFromWebSocket s d)))
   \<and> field_framed (PartialProgressState.completed_videos d) (completed_videos (state s))
        (completed_videos (state (updateFromWebSocket s d)))
   \<and> state (reset s) = initialProgressState
   \<and> wsConnected (reset s) = wsConnected s"
  by (simp add: updateFromWebSocket_def reset_def spread_def spread_field_def field_framed_def
      split: option.split)

theorem updateFromWebSocket_frame_witness:
  "PartialProgressState.completed_videos counters_message = Some 2
   \<and> completed_videos (state (updateFromWebSocket connected_store counters_message)) = 2
   \<and> PartialProgressState.current_video counters_message = Some None
   \<and> current_video (state (updateFromWebSocket connected_store counters_message)) = None
   \<and> PartialProgressState.total_videos counters_message = None
   \<and> total_videos (state (updateFromWebSocket connected_store counters_message)) = 4
   \<and> wsConnected (updateFromWebSocket connected_store counters_message)
   \<and> state (reset connected_store) = initialProgressState"
  using updateFromWebSocket_frame [of connected_store counters_message]
  by (simp add: field_framed_def counters_message_def connected_store_def busy_state_def
      initialProgressState_def)

section \<open>Properties of the processing manager\<close>

lemma next_queued_Some:
  "next_queued ts = Some i \<Longrightarrow> i < length ts \<and> status (ts ! i) = Queued"
  by (induction ts arbitrary: i) (auto split: if_splits)

lemma next_queued_None:
  "next_queued ts = None \<Longrightarrow> t \<in> set ts \<Longrightarrow> status t \<noteq> Queued"
  by (induction ts) (auto split: if_splits)

lemma count_status_update:
  "i < length ts \<Longrightarrow>
   count_status s (ts[i := t]) + (if status (ts ! i) = s then 1 else 0)
     = count_status s ts + (if status t = s then 1 else 0)"
proof (induction ts arbitrary: i)
  case Nil
  then show ?case by simp
next
  case (Cons a ts)
  then show ?case by (cases i) (auto simp: count_status_def)
qed

lemma count_status_same:
  assumes "i < length ts" and "status (ts ! i) \<noteq> s" and "status t \<noteq> s"
  shows "count_status s (ts[i := t]) = count_status s ts"
  using count_status_update [OF assms(1), of s t] assms(2,3) by simp

lemma count_status_gain:
  assumes "i < length ts" and "status (ts ! i) \<noteq> s" and "status t = s"
  shows "count_status s (ts[i := t]) = count_status s ts + 1"
  using count_status_update [OF assms(1), of s t] assms(2,3) by simp

lemma count_status_new: "s \<noteq> Queued \<Longrightarrow> count_status s (map new_task names) = 0"
  by (induction names) (simp_all add: count_status_def new_task_def)

lemma remaining_split:
  "length (filter (\<lambda>t. \<not> finished (status t)) ts) + count_status Done ts + count_status Failed ts
     = length ts"
  by (induction ts) (auto simp: count_status_def finished_def)

lemma counters_sum:
  "counters_ok m \<Longrightarrow> completed m + failed m + remaining m = total m"
  using remaining_split [of "tasks m"] by (simp add: counters_ok_def remaining_def)

lemma in_flight_simps [simp]:
  "in_flight Assigned" "in_flight Extracting" "in_flight Encoding" "in_flight Generating"
  "\<not> in_flight Queued" "\<not> in_flight Done" "\<not> in_flight Failed"
  by (simp_all add: in_flight_def)

text \<open>Each operation of the manager keeps the state consistent.\<close>

lemma consistent_init: "consistent (init devs)"
  by (simp add: consistent_def counters_ok_def holds_ok_def init_def count_status_def)

lemma consistent_start:
  "start_job m names = Inr m' \<Longrightarrow> consistent m'"
  by (auto simp: start_job_def consistent_def counters_ok_def holds_ok_def count_status_new
      new_worker_def split: if_splits)

lemma consistent_models_ready: "consistent m \<Longrightarrow> consistent (models_ready m)"
  by (simp add: models_ready_def consistent_def counters_ok_def holds_ok_def)

lemma consistent_job_fatal: "consistent m \<Longrightarrow> consistent (job_fatal msg m)"
  by (simp add: job_fatal_def consistent_def counters_ok_def holds_ok_def)

lemma consistent_stop: "consistent m \<Longrightarrow> stop_job m = Inr m' \<Longrightarrow> consistent m'"
  by (auto simp: stop_job_def consistent_def counters_ok_def holds_ok_def split: if_splits)

lemma consistent_settle: "consistent m \<Longrightarrow> consistent (settle m)"
  by (simp add: settle_def consistent_def counters_ok_def holds_ok_def)

lemma consistent_pull:
  assumes c: "consistent m" and w: "w < length (pool m)"
    and idle: "current_task (pool m ! w) = None"
    and p: "pull w (tasks m) = (Some i, ts)"
  shows "consistent (hold w i (m\<lparr>tasks := ts, pulled := l\<rparr>))"
proof -
  let ?m' = "hold w i (m\<lparr>tasks := ts, pulled := l\<rparr>)"
  from p have nq: "next_queued (tasks m) = Some i"
    and ts: "ts = (tasks m)[i := (tasks m ! i)\<lparr>status := Assigned, assigned_worker := Some w\<rparr>]"
    by (auto simp: pull_def split: option.splits)
  from next_queued_Some [OF nq] have i: "i < length (tasks m)" and q: "status (tasks m ! i) = Queued"
    by simp_all
  have cnt: "counters_ok ?m'"
    using c i q by (simp add: consistent_def counters_ok_def hold_def ts count_status_same)
  have "holds_ok ?m'"
    unfolding holds_ok_def
  proof (intro allI impI)
    fix w' j
    assume w': "w' < length (pool ?m')" and h: "current_task (pool ?m' ! w') = Some j"
    show "j < length (tasks ?m') \<and> in_flight (status (tasks ?m' ! j))
        \<and> assigned_worker (tasks ?m' ! j) = Some w'"
    proof (cases "w' = w")
      case True
      with h w have "j = i" by (simp add: hold_def)
      with True i show ?thesis by (simp add: ts hold_def)
    next
      case False
      with h w' have old: "current_task (pool m ! w') = Some j" and w'': "w' < length (pool m)"
        by (simp_all add: hold_def)
      with c have j: "j < length (tasks m)" "in_flight (status (tasks m ! j))"
          "assigned_worker (tasks m ! j) = Some w'"
        by (auto simp: consistent_def holds_ok_def)
      with q have "j \<noteq> i" by auto
      with j show ?thesis by (simp add: ts hold_def)
    qed
  qed
  with cnt show ?thesis by (simp add: consistent_def)
qed

text \<open>
  A worker that holds a task may rewrite that task: the tasks held by the other workers
  are different ones, because each held task points back to its worker.
\<close>

lemma holds_ok_rewrite:
  assumes h: "holds_ok m" and w: "w < length (pool m)"
    and cur: "current_task (pool m ! w) = Some i"
    and st: "in_flight (status t)" and aw: "assigned_worker t = Some w"
  shows "holds_ok (m\<lparr>tasks := (tasks m)[i := t]\<rparr>)"
  unfolding holds_ok_def
proof (intro allI impI)
  fix w' j
  assume w': "w' < length (pool (m\<lparr>tasks := (tasks m)[i := t]\<rparr>))"
    and hj: "current_task (pool (m\<lparr>tasks := (tasks m)[i := t]\<rparr>) ! w') = Some j"
  from w' hj h have j: "j < length (tasks m)" "in_flight (status (tasks m ! j))"
      "assigned_worker (tasks m ! j) = Some w'"
    by (auto simp: holds_ok_def)
  show "j < length (tasks (m\<lparr>tasks := (tasks m)[i := t]\<rparr>))
      \<and> in_flight (status (tasks (m\<lparr>tasks := (tasks m)[i := t]\<rparr>) ! j))
      \<and> assigned_worker (tasks (m\<lparr>tasks := (tasks m)[i := t]\<rparr>) ! j) = Some w'"
  proof (cases "j = i")
    case True
    from h w cur have "assigned_worker (tasks m ! i) = Some w" by (auto simp: holds_ok_def)
    with j True have "w' = w" by simp
    with True j st aw show ?thesis by simp
  next
    case False
    with j show ?thesis by simp
  qed
qed

lemma holds_ok_finish:
  assumes h: "holds_ok m" and w: "w < length (pool m)"
    and cur: "current_task (pool m ! w) = Some i"
  shows "holds_ok (release w (m\<lparr>tasks := (tasks m)[i := t]\<rparr>))"
  unfolding holds_ok_def
proof (intro allI impI)
  let ?m' = "release w (m\<lparr>tasks := (tasks m)[i := t]\<rparr>)"
  fix w' j
  assume w': "w' < length (pool ?m')" and hj: "current_task (pool ?m' ! w') = Some j"
  from hj w' w have ne: "w' \<noteq> w" by (auto simp: release_def)
  with hj w' have old: "current_task (pool m ! w') = Some j" "w' < length (pool m)"
    by (simp_all add: release_def)
  with h have j: "j < length (tasks m)" "in_flight (status (tasks m ! j))"
      "assigned_worker (tasks m ! j) = Some w'"
    by (auto simp: holds_ok_def)
  from h w cur have "assigned_worker (tasks m ! i) = Some w" by (auto simp: holds_ok_def)
  with j ne have "j \<noteq> i" by auto
  with j show "j < length (tasks ?m') \<and> in_flight (status (tasks ?m' ! j))
      \<and> assigned_worker (tasks ?m' ! j) = Some w'"
    by (simp add: release_def)
qed

lemma consistent_set_status:
  assumes c: "consistent m" and w: "w < length (pool m)"
    and cur: "current_task (pool m ! w) = Some i" and s: "in_flight s"
  shows "consistent (set_status i s m)"
proof -
  from c w cur have i: "i < length (tasks m)" and fl: "in_flight (status (tasks m ! i))"
    and aw: "assigned_worker (tasks m ! i) = Some w"
    by (auto simp: consistent_def holds_ok_def)
  from fl have nf: "status (tasks m ! i) \<noteq> Done" "status (tasks m ! i) \<noteq> Failed" by auto
  from s have ns: "s \<noteq> Done" "s \<noteq> Failed" by auto
  have "counters_ok (set_status i s m)"
    using c i nf ns by (simp add: consistent_def counters_ok_def set_status_def count_status_same)
  moreover have "holds_ok (set_status i s m)"
    unfolding set_status_def using c w cur s aw
    by (intro holds_ok_rewrite [where w = w]) (simp_all add: consistent_def)
  ultimately show ?thesis by (simp add: consistent_def)
qed

lemma consistent_task_done:
  assumes c: "consistent m" and w: "w < length (pool m)"
    and cur: "current_task (pool m ! w) = Some i"
  shows "consistent (task_done w i m)"
proof -
  from c w cur have i: "i < length (tasks m)" and fl: "in_flight (status (tasks m ! i))"
    by (auto simp: consistent_def holds_ok_def)
  from fl have nf: "status (tasks m ! i) \<noteq> Done" "status (tasks m ! i) \<noteq> Failed" by auto
  have "counters_ok (task_done w i m)"
    using c i nf
    by (simp add: consistent_def counters_ok_def task_done_def set_status_def release_def
        count_status_same count_status_gain)
  moreover have "holds_ok (release w (m\<lparr>tasks := (tasks m)[i := (tasks m ! i)\<lparr>status := Done\<rparr>]\<rparr>))"
    using c w cur by (intro holds_ok_finish) (simp_all add: consistent_def)
  then have "holds_ok (task_done w i m)"
    by (simp add: holds_ok_def task_done_def set_status_def release_def)
  ultimately show ?thesis by (simp add: consistent_def)
qed

lemma consistent_task_failed:
  assumes c: "consistent m" and w: "w < length (pool m)"
    and cur: "current_task (pool m ! w) = Some i"
  shows "consistent (task_failed w i msg m)"
proof -
  from c w cur have i: "i < length (tasks m)" and fl: "in_flight (status (tasks m ! i))"
    by (auto simp: consistent_def holds_ok_def)
  from fl have nf: "status (tasks m ! i) \<noteq> Done" "status (tasks m ! i) \<noteq> Failed" by auto
  have "counters_ok (task_failed w i msg m)"
    using c i nf
    by (simp add: consistent_def counters_ok_def task_failed_def release_def
        count_status_same count_status_gain)
  moreover have "holds_ok (release w (m\<lparr>tasks := (tasks m)[i := (tasks m ! i)\<lparr>status := Failed, error := Some msg\<rparr>]\<rparr>))"
    using c w cur by (intro holds_ok_finish) (simp_all add: consistent_def)
  then have "holds_ok (task_failed w i msg m)"
    by (simp add: holds_ok_def task_failed_def release_def)
  ultimately show ?thesis by (simp add: consistent_def)
qed

lemma consistent_advance:
  assumes c: "consistent m" and w: "w < length (pool m)"
    and cur: "current_task (pool m ! w) = Some i"
  shows "consistent (advance C w i m)"
  using assms
  by (auto simp: advance_def consistent_set_status consistent_task_done consistent_task_failed
      split: TaskStatus.splits sum.splits)

lemma consistent_worker_step:
  assumes c: "consistent m"
  shows "consistent (worker_step C pol w m)"
proof (cases "job_stage m \<noteq> Processing \<or> length (pool m) \<le> w")
  case True
  with c show ?thesis by (simp add: worker_step_def)
next
  case False
  then have w: "w < length (pool m)" and pr: "job_stage m = Processing" by simp_all
  show ?thesis
  proof (cases "current_task (pool m ! w)")
    case None
    show ?thesis
    proof (cases "pull w (tasks m)")
      case (Pair r ts)
      show ?thesis
      proof (cases r)
        case None': None
        with c w pr None Pair show ?thesis by (simp add: worker_step_def)
      next
        case (Some i)
        with Pair have "pull w (tasks m) = (Some i, ts)" by simp
        from consistent_pull [OF c w None this, of "pulled m @ [(w, i)]"] c w pr None Pair Some
        show ?thesis by (simp add: worker_step_def)
      qed
    qed
  next
    case (Some i)
    with c w pr show ?thesis
      by (simp add: worker_step_def consistent_advance consistent_task_failed)
  qed
qed

lemma consistent_step: "consistent m \<Longrightarrow> consistent (step C pol m e)"
  by (cases e)
     (auto simp: step_def handle_def consistent_settle consistent_models_ready
        consistent_job_fatal consistent_worker_step consistent_start consistent_stop
        split: sum.splits)

lemma consistent_run: "consistent m \<Longrightarrow> consistent (run C pol m evs)"
  unfolding run_def by (induction evs arbitrary: m) (simp_all add: consistent_step)

lemma consistent_reachable: "consistent (run C pol (init devs) evs)"
  by (rule consistent_run [OF consistent_init])

lemma log_ok_keeps: "log_ok m \<Longrightarrow> keeps_log m m' \<Longrightarrow> log_ok m'"
  by (auto simp: log_ok_def keeps_log_def)

lemma keeps_log_refl: "keeps_log m m"
  by (simp add: keeps_log_def)

lemma status_update_not_queued:
  "j < length ts \<Longrightarrow> status (ts ! j) \<noteq> Queued \<Longrightarrow> status t \<noteq> Queued \<Longrightarrow>
   status (ts[i := t] ! j) \<noteq> Queued"
  by (cases "i = j") simp_all

lemma keeps_log_set_status: "s \<noteq> Queued \<Longrightarrow> keeps_log m (set_status i s m)"
  by (simp add: keeps_log_def set_status_def status_update_not_queued)

lemma keeps_log_task_done: "keeps_log m (task_done w i m)"
  by (simp add: keeps_log_def task_done_def set_status_def release_def status_update_not_queued)

lemma keeps_log_task_failed: "keeps_log m (task_failed w i msg m)"
  by (simp add: keeps_log_def task_failed_def release_def status_update_not_queued)

lemma keeps_log_advance: "keeps_log m (advance C w i m)"
  by (auto simp: advance_def keeps_log_refl keeps_log_set_status keeps_log_task_done
      keeps_log_task_failed split: TaskStatus.splits sum.splits)

lemma keeps_log_settle: "keeps_log m (settle m)"
  by (simp add: keeps_log_def settle_def)

lemma log_ok_pull:
  assumes l: "log_ok m" and p: "pull w (tasks m) = (Some i, ts)"
  shows "log_ok (hold w i (m\<lparr>tasks := ts, pulled := pulled m @ [(w, i)]\<rparr>))"
proof -
  from p have nq: "next_queued (tasks m) = Some i"
    and ts: "ts = (tasks m)[i := (tasks m ! i)\<lparr>status := Assigned, assigned_worker := Some w\<rparr>]"
    by (auto simp: pull_def split: option.splits)
  from next_queued_Some [OF nq] have i: "i < length (tasks m)" and q: "status (tasks m ! i) = Queued"
    by simp_all
  from l q have fresh: "i \<notin> snd ` set (pulled m)" by (auto simp: log_ok_def)
  show ?thesis
    using l i fresh by (auto simp: log_ok_def hold_def ts nth_list_update)
qed

lemma log_ok_worker_step: "log_ok m \<Longrightarrow> log_ok (worker_step C pol w m)"
  by (auto simp: worker_step_def log_ok_pull
      intro: log_ok_keeps [OF _ keeps_log_advance] log_ok_keeps [OF _ keeps_log_task_failed]
      split: option.splits prod.splits)

lemma log_ok_init: "log_ok (init devs)"
  by (simp add: log_ok_def init_def)

lemma log_ok_step: "log_ok m \<Longrightarrow> log_ok (step C pol m e)"
proof (cases e)
  case (Start names)
  assume "log_ok m"
  then show ?thesis
    by (auto simp: Start step_def handle_def start_job_def settle_def log_ok_def)
next
  case ModelsReady
  assume "log_ok m"
  then have "log_ok (models_ready m)" by (simp add: log_ok_def models_ready_def)
  then show ?thesis
    by (simp add: ModelsReady step_def handle_def log_ok_keeps [OF _ keeps_log_settle])
next
  case (Fatal msg)
  assume "log_ok m"
  then have "log_ok (job_fatal msg m)" by (simp add: log_ok_def job_fatal_def)
  then show ?thesis
    by (simp add: Fatal step_def handle_def log_ok_keeps [OF _ keeps_log_settle])
next
  case Stop
  assume l: "log_ok m"
  then have "log_ok (m\<lparr>cancel_flag := True\<rparr>)" by (simp add: log_ok_def)
  with l show ?thesis
    by (simp add: Stop step_def handle_def stop_job_def log_ok_keeps [OF _ keeps_log_settle])
next
  case (WorkerStep w)
  assume "log_ok m"
  then show ?thesis
    by (simp add: WorkerStep step_def handle_def log_ok_worker_step
        log_ok_keeps [OF _ keeps_log_settle])
qed

lemma log_ok_reachable: "log_ok (run C pol (init devs) evs)"
proof -
  have "log_ok m \<Longrightarrow> log_ok (run C pol m evs)" for m
    unfolding run_def by (induction evs arbitrary: m) (simp_all add: log_ok_step)
  then show ?thesis by (simp add: log_ok_init)
qed

lemma job_stage_advance [simp]: "job_stage (advance C w i m) = job_stage m"
  by (simp add: advance_def set_status_def task_done_def task_failed_def release_def
      split: TaskStatus.splits sum.splits)

lemma job_stage_task_failed [simp]: "job_stage (task_failed w i msg m) = job_stage m"
  by (simp add: task_failed_def release_def)

lemma job_stage_worker_step [simp]: "job_stage (worker_step C pol w m) = job_stage m"
  by (simp add: worker_step_def hold_def split: option.splits prod.splits)

lemma worker_step_not_processing:
  "job_stage m \<noteq> Processing \<Longrightarrow> worker_step C pol w m = m"
  by (simp add: worker_step_def)

lemma settle_complete:
  "job_stage (settle m) = Complete \<Longrightarrow> job_stage m = Complete \<or> remaining m = 0"
  by (auto simp: settle_def split: if_splits)

lemma remaining_settle [simp]: "remaining (settle m) = remaining m"
  by (simp add: settle_def remaining_def)

lemma complete_ok_settle: "complete_ok m \<Longrightarrow> complete_ok (settle m)"
  using settle_complete [of m] by (auto simp: complete_ok_def)

lemma complete_ok_start: "start_job m names = Inr m' \<Longrightarrow> complete_ok m'"
  by (auto simp: start_job_def complete_ok_def split: if_splits)

lemma complete_ok_models_ready: "complete_ok m \<Longrightarrow> complete_ok (models_ready m)"
  by (auto simp: complete_ok_def models_ready_def remaining_def)

lemma complete_ok_job_fatal: "complete_ok m \<Longrightarrow> complete_ok (job_fatal msg m)"
  by (auto simp: complete_ok_def job_fatal_def remaining_def)

lemma complete_ok_stop: "complete_ok m \<Longrightarrow> stop_job m = Inr m' \<Longrightarrow> complete_ok m'"
  by (auto simp: complete_ok_def stop_job_def remaining_def split: if_splits)

lemma complete_ok_worker_step: "complete_ok m \<Longrightarrow> complete_ok (worker_step C pol w m)"
  by (cases "job_stage m = Processing")
     (simp_all add: complete_ok_def worker_step_not_processing)

lemma complete_ok_step: "complete_ok m \<Longrightarrow> complete_ok (step C pol m e)"
  by (cases e)
     (auto simp: step_def handle_def complete_ok_settle complete_ok_models_ready
        complete_ok_job_fatal complete_ok_worker_step complete_ok_start complete_ok_stop
        split: sum.splits)

lemma complete_ok_reachable: "complete_ok (run C pol (init devs) evs)"
proof -
  have "complete_ok m \<Longrightarrow> complete_ok (run C pol m evs)" for m
    unfolding run_def by (induction evs arbitrary: m) (simp_all add: complete_ok_step)
  then show ?thesis by (simp add: complete_ok_def init_def)
qed

lemma run_append: "run C pol m (xs @ ys) = run C pol (run C pol m xs) ys"
  by (simp add: run_def)

lemma run_Cons: "run C pol m (e # evs) = run C pol (step C pol m e) evs"
  by (simp add: run_def)

lemma run_Nil: "run C pol m [] = m"
  by (simp add: run_def)

lemma two_workers_busy_eval:
  "map current_task (pool two_workers_busy) = [Some 0, Some 1]
   \<and> pulled two_workers_busy = [(0, 0), (1, 1)]
   \<and> job_stage two_workers_busy = Processing"
  by code_simp

lemma stopped_job_eval:
  "job_stage stopped_job = Stopped \<and> completed stopped_job = 1 \<and> failed stopped_job = 0
   \<and> total stopped_job = 3 \<and> remaining stopped_job = 2"
  by code_simp






text \<open>
  C5: whenever the job is stopped, the stop response reports the completed count and the
  remaining count of that moment, and these two plus the failed count are the number of
  requested tasks.
\<close>

theorem stop_response_sum:
  assumes "m = run C pol (init devs) evs"
  shows "videos_completed (stop_response m) = completed m
         \<and> videos_remaining (stop_response m) = remaining m
         \<and> videos_completed (stop_response m) + videos_remaining (stop_response m) + failed m
           = total m
         \<and> total m = length (tasks m)"
proof -
  have c: "counters_ok m"
    using consistent_reachable [of C pol devs evs] assms by (simp add: consistent_def)
  from counters_sum [OF c] c show ?thesis
    by (simp add: stop_response_def counters_ok_def)
qed

theorem stop_response_sum_witness:
  "videos_completed (stop_response stopped_job) = 1
   \<and> videos_remaining (stop_response stopped_job) = 2
   \<and> failed stopped_job = 0
   \<and> total stopped_job = 3
   \<and> length (tasks stopped_job) = 3"
  using stop_response_sum [OF stopped_job_def] stopped_job_eval
  by simp

text \<open>
  C6: a start request that arrives while a job is loading the model or processing is
  rejected as a job conflict; the manager is left as it was, and whatever happens next
  happens as if the request had never been made.
\<close>

theorem start_conflict:
  assumes "job_stage m = LoadingModel \<or> job_stage m = Processing"
  shows "start_job m names = Inl JobConflict
         \<and> step C pol m (Start names) = m
         \<and> run C pol m (Start names # evs) = run C pol m evs"
  using assms by (simp add: start_job_def active_def step_def handle_def run_def)

theorem start_conflict_witness:
  "job_stage two_workers_busy = Processing
   \<and> start_job two_workers_busy [''z.mp4''] = Inl JobConflict
   \<and> step sample_collaborators FinishCurrent two_workers_busy (Start [''z.mp4''])
       = two_workers_busy"
  using start_conflict [of two_workers_busy "[''z.mp4'']" sample_collaborators FinishCurrent "[]"]
    two_workers_busy_eval
  by simp

text \<open>
  C7: for any number of workers and any interleaving of their steps, two different
  workers never hold the same task, every held task is in flight and points back to the
  one worker holding it, and no task is handed out by \<open>pull\<close> more than once.
\<close>

theorem queue_exclusivity:
  assumes "m = run C pol (init devs) evs"
  shows "(\<forall>w1<length (pool m). \<forall>w2<length (pool m). \<forall>i j.
            w1 \<noteq> w2 \<and> current_task (pool m ! w1) = Some i
              \<and> current_task (pool m ! w2) = Some j \<longrightarrow> i \<noteq> j)
         \<and> (\<forall>w<length (pool m). \<forall>i. current_task (pool m ! w) = Some i \<longrightarrow>
               i < length (tasks m) \<and> in_flight (status (tasks m ! i))
               \<and> assigned_worker (tasks m ! i) = Some w)
         \<and> distinct (map snd (pulled m))"
proof -
  have h: "holds_ok m"
    using consistent_reachable [of C pol devs evs] assms by (simp add: consistent_def)
  have l: "log_ok m"
    using log_ok_reachable [of C pol devs evs] assms by simp
  have "i \<noteq> j"
    if "w1 < length (pool m)" "w2 < length (pool m)" "w1 \<noteq> w2"
      "current_task (pool m ! w1) = Some i" "current_task (pool m ! w2) = Some j"
    for w1 w2 i j
  proof
    assume eq: "i = j"
    from h that(1,4) have "assigned_worker (tasks m ! i) = Some w1"
      unfolding holds_ok_def by blast
    moreover from h that(2,5) eq have "assigned_worker (tasks m ! i) = Some w2"
      unfolding holds_ok_def by blast
    ultimately show False using that(3) by simp
  qed
  moreover from h have "\<forall>w<length (pool m). \<forall>i. current_task (pool m ! w) = Some i \<longrightarrow>
               i < length (tasks m) \<and> in_flight (status (tasks m ! i))
               \<and> assigned_worker (tasks m ! i) = Some w"
    by (simp add: holds_ok_def)
  moreover from l have "distinct (map snd (pulled m))" by (simp add: log_ok_def)
  ultimately show ?thesis by blast
qed

theorem queue_exclusivity_witness:
  "length (pool two_workers_busy) = 2
   \<and> current_task (pool two_workers_busy ! 0) = Some 0
   \<and> current_task (pool two_workers_busy ! 1) = Some 1
   \<and> pulled two_workers_busy = [(0, 0), (1, 1)]
   \<and> distinct (map snd (pulled two_workers_busy))"
proof -
  have e: "map current_task (pool two_workers_busy) = [Some 0, Some 1]"
    and p: "pulled two_workers_busy = [(0, 0), (1, 1)]"
    using two_workers_busy_eval by simp_all
  from e have len: "length (pool two_workers_busy) = 2"
    by (metis length_map length_Cons list.size(3) One_nat_def Suc_1)
  from e have c0: "current_task (pool two_workers_busy ! 0) = Some 0"
    by (metis len nth_map nth_Cons_0 zero_less_numeral)
  from e have c1: "current_task (pool two_workers_busy ! 1) = Some 1"
    by (metis len nth_map nth_Cons_0 nth_Cons_Suc One_nat_def one_less_numeral_iff
        semiring_norm(76))
  from queue_exclusivity [OF two_workers_busy_def]
  have "distinct (map snd (pulled two_workers_busy))" by blast
  with len c0 c1 p show ?thesis by simp
qed

lemma tasks_set_status [simp]:
  "tasks (set_status i s m) = (tasks m)[i := (tasks m ! i)\<lparr>status := s\<rparr>]"
  and pool_set_status [simp]: "pool (set_status i s m) = pool m"
  and cancel_flag_set_status [simp]: "cancel_flag (set_status i s m) = cancel_flag m"
  and job_stage_set_status [simp]: "job_stage (set_status i s m) = job_stage m"
  by (simp_all add: set_status_def)

lemma tasks_task_done [simp]:
  "tasks (task_done w i m) = (tasks m)[i := (tasks m ! i)\<lparr>status := Done\<rparr>]"
  and pool_task_done [simp]:
    "pool (task_done w i m) = (pool m)[w := (pool m ! w)\<lparr>current_task := None\<rparr>]"
  and cancel_flag_task_done [simp]: "cancel_flag (task_done w i m) = cancel_flag m"
  and job_stage_task_done [simp]: "job_stage (task_done w i m) = job_stage m"
  by (simp_all add: task_done_def set_status_def release_def)

lemma tasks_task_failed [simp]:
  "tasks (task_failed w i msg m)
     = (tasks m)[i := (tasks m ! i)\<lparr>status := Failed, error := Some msg\<rparr>]"
  and pool_task_failed [simp]:
    "pool (task_failed w i msg m) = (pool m)[w := (pool m ! w)\<lparr>current_task := None\<rparr>]"
  and cancel_flag_task_failed [simp]: "cancel_flag (task_failed w i msg m) = cancel_flag m"
  by (simp_all add: task_failed_def release_def)

lemma tasks_hold [simp]: "tasks (hold w i m) = tasks m"
  and pool_hold [simp]: "pool (hold w i m) = (pool m)[w := (pool m ! w)\<lparr>current_task := Some i\<rparr>]"
  and cancel_flag_hold [simp]: "cancel_flag (hold w i m) = cancel_flag m"
  and job_stage_hold [simp]: "job_stage (hold w i m) = job_stage m"
  by (simp_all add: hold_def)

lemma tasks_settle [simp]: "tasks (settle m) = tasks m"
  and pool_settle [simp]: "pool (settle m) = pool m"
  and cancel_flag_settle [simp]: "cancel_flag (settle m) = cancel_flag m"
  by (simp_all add: settle_def)

lemma work_left_update:
  "i < length ts \<Longrightarrow>
   sum_list (map (\<lambda>t. weight (status t)) (ts[i := t])) + weight (status (ts ! i))
     = sum_list (map (\<lambda>t. weight (status t)) ts) + weight (status t)"
proof (induction ts arbitrary: i)
  case Nil
  then show ?case by simp
next
  case (Cons a ts)
  then show ?case by (cases i) auto
qed

lemma work_left_less:
  assumes "i < length (tasks m)" and "tasks m' = (tasks m)[i := t]"
    and "weight (status t) < weight (status (tasks m ! i))"
  shows "work_left m' < work_left m"
  using work_left_update [OF assms(1), of t] assms(2,3) by (simp add: work_left_def)

lemma work_left_bound: "work_left m \<le> 5 * length (tasks m)"
proof -
  have "sum_list (map (\<lambda>t. weight (status t)) ts) \<le> 5 * length ts" for ts :: "Task list"
  proof (induction ts)
    case Nil
    then show ?case by simp
  next
    case (Cons a ts)
    have "weight (status a) \<le> 5" by (cases "status a") simp_all
    with Cons show ?case by simp
  qed
  then show ?thesis by (simp add: work_left_def)
qed

lemma work_left_pos:
  assumes "t \<in> set (tasks m)" and "\<not> finished (status t)"
  shows "0 < work_left m"
proof -
  have "0 < weight (status t)" using assms(2) by (cases "status t") (simp_all add: finished_def)
  moreover have "weight (status t) \<le> work_left m"
    unfolding work_left_def using assms(1) by (simp add: member_le_sum_list)
  ultimately show ?thesis by simp
qed

lemma work_left_settle [simp]: "work_left (settle m) = work_left m"
  by (simp add: work_left_def)

lemma pipeline_fails_decode: "decode_fails C v \<Longrightarrow> pipeline_fails C v"
  by (auto simp: decode_fails_def pipeline_fails_def run_pipeline_def split: sum.splits)

text \<open>
  What one step of a worker does while the job is processing and no stop was requested:
  nothing, when the worker is idle and the queue is empty; otherwise it rewrites one task,
  moving it strictly forward.
\<close>

lemma effect_pull:
  assumes w: "w < length (pool m)" and idle: "current_task (pool m ! w) = None"
    and p: "pull w (tasks m) = (Some i, ts)"
  shows "effect C w m (hold w i (m\<lparr>tasks := ts, pulled := l\<rparr>))"
proof -
  from p have nq: "next_queued (tasks m) = Some i"
    and ts: "ts = (tasks m)[i := (tasks m ! i)\<lparr>status := Assigned, assigned_worker := Some w\<rparr>]"
    by (auto simp: pull_def split: option.splits)
  from next_queued_Some [OF nq] have i: "i < length (tasks m)" and q: "status (tasks m ! i) = Queued"
    by simp_all
  show ?thesis
    unfolding effect_def
    by (rule exI [of _ i],
        rule exI [of _ "(tasks m ! i)\<lparr>status := Assigned, assigned_worker := Some w\<rparr>"],
        rule exI [of _ "Some i"])
       (use i q idle ts in simp)
qed

lemma worker_update_same: "current_task x = c \<Longrightarrow> x\<lparr>current_task := c\<rparr> = x"
  by simp

lemma pool_update_same:
  "current_task (ws ! w) = c \<Longrightarrow> ws[w := (ws ! w)\<lparr>current_task := c\<rparr>] = ws"
  by (simp add: worker_update_same)

lemma effect_set_status:
  assumes "i < length (tasks m)" and "current_task (pool m ! w) = Some i"
    and "in_flight s" and "weight s < weight (status (tasks m ! i))"
  shows "effect C w m (set_status i s m)"
  unfolding effect_def
  by (rule exI [of _ i], rule exI [of _ "(tasks m ! i)\<lparr>status := s\<rparr>"], rule exI [of _ "Some i"])
     (use assms in \<open>simp add: pool_update_same\<close>)

lemma effect_task_done:
  assumes "i < length (tasks m)" and "current_task (pool m ! w) = Some i"
    and "in_flight (status (tasks m ! i))"
    and "\<not> pipeline_fails C (video_name (tasks m ! i))"
  shows "effect C w m (task_done w i m)"
  unfolding effect_def
  by (rule exI [of _ i], rule exI [of _ "(tasks m ! i)\<lparr>status := Done\<rparr>"], rule exI [of _ None])
     (use assms in \<open>auto simp: in_flight_def\<close>)

lemma effect_task_failed:
  assumes "i < length (tasks m)" and "current_task (pool m ! w) = Some i"
    and "in_flight (status (tasks m ! i))"
    and "pipeline_fails C (video_name (tasks m ! i))"
  shows "effect C w m (task_failed w i msg m)"
  unfolding effect_def
  by (rule exI [of _ i],
      rule exI [of _ "(tasks m ! i)\<lparr>status := Failed, error := Some msg\<rparr>"],
      rule exI [of _ None])
     (use assms in \<open>auto simp: in_flight_def task_failed_def release_def\<close>)

lemma effect_advance:
  assumes i: "i < length (tasks m)" and cur: "current_task (pool m ! w) = Some i"
    and fl: "in_flight (status (tasks m ! i))"
  shows "effect C w m (advance C w i m)"
proof (cases "status (tasks m ! i)")
  case Assigned
  then show ?thesis
    using i cur by (simp add: advance_def effect_set_status)
next
  case Extracting
  show ?thesis
  proof (cases "extract_frames C (video_name (tasks m ! i))")
    case (Inl e)
    then have "pipeline_fails C (video_name (tasks m ! i))"
      by (simp add: pipeline_fails_decode decode_fails_def)
    with Extracting Inl i cur fl show ?thesis
      by (simp add: advance_def effect_task_failed)
  next
    case (Inr frames)
    with Extracting i cur show ?thesis
      by (simp add: advance_def effect_set_status)
  qed
next
  case Encoding
  then show ?thesis
    using i cur by (simp add: advance_def effect_set_status)
next
  case Generating
  show ?thesis
  proof (cases "run_pipeline C (video_name (tasks m ! i))")
    case (Inl e)
    then have "pipeline_fails C (video_name (tasks m ! i))"
      by (simp add: pipeline_fails_def)
    with Generating Inl i cur fl show ?thesis
      by (simp add: advance_def effect_task_failed)
  next
    case (Inr caption)
    then have "\<not> pipeline_fails C (video_name (tasks m ! i))"
      by (simp add: pipeline_fails_def)
    with Generating Inr i cur fl show ?thesis
      by (simp add: advance_def effect_task_done)
  qed
qed (use fl in simp_all)

lemma worker_step_effect:
  assumes h: "holds_ok m" and pr: "job_stage m = Processing" and nc: "\<not> cancel_flag m"
    and w: "w < length (pool m)"
  shows "worker_step C pol w m = m
           \<and> current_task (pool m ! w) = None \<and> next_queued (tasks m) = None
         \<or> effect C w m (worker_step C pol w m)"
proof (cases "current_task (pool m ! w)")
  case None
  show ?thesis
  proof (cases "next_queued (tasks m)")
    case None': None
    with None pr w nc show ?thesis by (simp add: worker_step_def pull_def)
  next
    case (Some i)
    then have p: "pull w (tasks m)
        = (Some i, (tasks m)[i := (tasks m ! i)\<lparr>status := Assigned, assigned_worker := Some w\<rparr>])"
      by (simp add: pull_def)
    from effect_pull [OF w None p, of C "pulled m @ [(w, i)]"] None pr w nc p
    show ?thesis by (simp add: worker_step_def)
  qed
next
  case (Some i)
  with h w have "i < length (tasks m)" "in_flight (status (tasks m ! i))"
    by (auto simp: holds_ok_def)
  from effect_advance [OF this(1) Some this(2), of C] Some pr w nc
  show ?thesis by (simp add: worker_step_def)
qed

lemma effect_work_left: "effect C w m m' \<Longrightarrow> work_left m' < work_left m"
  by (auto simp: effect_def intro: work_left_less)

lemma effect_names:
  assumes "effect C w m m'"
  shows "map video_name (tasks m') = map video_name (tasks m)"
proof -
  from assms obtain i t where i: "i < length (tasks m)" and ts: "tasks m' = (tasks m)[i := t]"
    and v: "video_name t = video_name (tasks m ! i)"
    unfolding effect_def by blast
  have "map video_name (tasks m') = (map video_name (tasks m))[i := map video_name (tasks m) ! i]"
    using i ts v by (simp add: map_update)
  then show ?thesis by simp
qed

lemma effect_pool:
  "effect C w m m' \<Longrightarrow> length (pool m') = length (pool m) \<and> (v \<noteq> w \<longrightarrow> pool m' ! v = pool m ! v)"
  by (auto simp: effect_def)

lemma effect_outcome:
  assumes e: "effect C w m m'" and o: "outcome_ok C m"
  shows "outcome_ok C m'"
proof -
  from e obtain i t c where ts: "tasks m' = (tasks m)[i := t]"
    and t: "c = Some i \<and> in_flight (status t)
             \<or> c = None
                \<and> (status t = Done \<and> \<not> pipeline_fails C (video_name t)
                     \<or> status t = Failed \<and> pipeline_fails C (video_name t))"
    unfolding effect_def by blast
  have "(status u = Done \<longrightarrow> \<not> pipeline_fails C (video_name u))
        \<and> (status u = Failed \<longrightarrow> pipeline_fails C (video_name u))"
    if "u \<in> set (tasks m')" for u
  proof -
    from that ts have "u = t \<or> u \<in> set (tasks m)"
      using set_update_subset_insert [of "tasks m" i t] by auto
    then show ?thesis
    proof
      assume "u = t"
      with t show ?thesis by (auto simp: in_flight_def)
    next
      assume "u \<in> set (tasks m)"
      with o show ?thesis by (simp add: outcome_ok_def)
    qed
  qed
  then show ?thesis by (simp add: outcome_ok_def)
qed

lemma effect_covered:
  assumes e: "effect C w m m'" and cov: "covered m" and h: "holds_ok m"
    and w: "w < length (pool m)"
  shows "covered m'"
proof -
  from e obtain i t c where i: "i < length (tasks m)" and ts: "tasks m' = (tasks m)[i := t]"
    and pl: "pool m' = (pool m)[w := (pool m ! w)\<lparr>current_task := c\<rparr>]"
    and pre: "current_task (pool m ! w) = Some i
             \<or> current_task (pool m ! w) = None \<and> status (tasks m ! i) = Queued"
    and post: "c = Some i \<and> in_flight (status t)
             \<or> c = None \<and> (status t = Done \<or> status t = Failed)"
    unfolding effect_def by blast
  show ?thesis
    unfolding covered_def
  proof (intro allI impI)
    fix j
    assume j: "j < length (tasks m')" and fl: "in_flight (status (tasks m' ! j))"
    show "\<exists>v<length (pool m'). current_task (pool m' ! v) = Some j"
    proof (cases "j = i")
      case True
      with fl ts i post have "c = Some i" by auto
      with True w pl show ?thesis by auto
    next
      case False
      with j fl ts have "j < length (tasks m)" "in_flight (status (tasks m ! j))" by simp_all
      with cov obtain v where v: "v < length (pool m)" "current_task (pool m ! v) = Some j"
        unfolding covered_def by blast
      from pre v False have "v \<noteq> w" by auto
      with v pl show ?thesis by auto
    qed
  qed
qed

lemma all_idle_iff: "all_idle m \<longleftrightarrow> (\<forall>v<length (pool m). current_task (pool m ! v) = None)"
  by (simp add: all_idle_def list_all_length)

lemma all_idle_settle [simp]: "all_idle (settle m) = all_idle m"
  by (simp add: all_idle_def)

lemma covered_settle [simp]: "covered (settle m) = covered m"
  by (simp add: covered_def)

lemma outcome_ok_settle [simp]: "outcome_ok C (settle m) = outcome_ok C m"
  by (simp add: outcome_ok_def)

lemma settle_running_stage:
  assumes "job_stage m = Processing" and "\<not> cancel_flag m"
  shows "(job_stage (settle m) = Processing \<or> job_stage (settle m) = Complete)
         \<and> (job_stage (settle m) = Processing \<longrightarrow> \<not> (all_idle m \<and> remaining m = 0))"
  using assms by (simp add: settle_def)

lemma settle_busy:
  assumes "v < length (pool m)" and "current_task (pool m ! v) \<noteq> None"
  shows "settle m = m"
  using assms by (auto simp: settle_def all_idle_iff)

lemma settle_settled:
  assumes "job_stage m = Processing \<longrightarrow> \<not> (all_idle m \<and> remaining m = 0)"
    and "\<not> cancel_flag m"
  shows "settle m = m"
  using assms by (auto simp: settle_def)

lemma step_worker: "step C pol m (WorkerStep w) = settle (worker_step C pol w m)"
  by (simp add: step_def handle_def)

lemma running_complete_step:
  assumes r: "running C n names m" and c: "job_stage m = Complete"
  shows "step C pol m (WorkerStep w) = m"
  using c by (simp add: step_worker worker_step_not_processing settle_def)

text \<open>The three things a worker step can be in a running job.\<close>

lemma running_step_cases:
  assumes r: "running C n names m" and pr: "job_stage m = Processing"
  shows "step C pol m (WorkerStep w) = m
         \<or> (w < n \<and> effect C w m (worker_step C pol w m)
             \<and> step C pol m (WorkerStep w) = settle (worker_step C pol w m))"
proof (cases "w < n")
  case False
  with r have "worker_step C pol w m = m" by (simp add: worker_step_def running_def)
  moreover from r pr have "settle m = m" by (intro settle_settled) (simp_all add: running_def)
  ultimately show ?thesis by (simp add: step_worker)
next
  case True
  from r have h: "holds_ok m" and nc: "\<not> cancel_flag m" and len: "length (pool m) = n"
    by (simp_all add: running_def consistent_def)
  from True len have "w < length (pool m)" by simp
  from worker_step_effect [OF h pr nc this, of C pol]
  show ?thesis
  proof
    assume "worker_step C pol w m = m
            \<and> current_task (pool m ! w) = None \<and> next_queued (tasks m) = None"
    moreover from r pr have "settle m = m" by (intro settle_settled) (simp_all add: running_def)
    ultimately show ?thesis by (simp add: step_worker)
  next
    assume "effect C w m (worker_step C pol w m)"
    with True show ?thesis by (simp add: step_worker)
  qed
qed

lemma running_step:
  assumes r: "running C n names m"
  shows "running C n names (step C pol m (WorkerStep w))"
proof (cases "job_stage m = Processing")
  case False
  with r have "job_stage m = Complete" by (simp add: running_def)
  with r show ?thesis by (simp add: running_complete_step)
next
  case True
  from running_step_cases [OF r True, of pol w] show ?thesis
  proof
    assume "step C pol m (WorkerStep w) = m"
    with r show ?thesis by simp
  next
    assume a: "w < n \<and> effect C w m (worker_step C pol w m)
               \<and> step C pol m (WorkerStep w) = settle (worker_step C pol w m)"
    let ?m' = "worker_step C pol w m"
    from a have e: "effect C w m ?m'" and w: "w < n"
      and st: "step C pol m (WorkerStep w) = settle ?m'" by simp_all
    from r have h: "holds_ok m" and len: "length (pool m) = n" and nc: "\<not> cancel_flag m"
      by (simp_all add: running_def consistent_def)
    from e have nc': "\<not> cancel_flag ?m'" and pr': "job_stage ?m' = Processing"
      using nc True by (auto simp: effect_def)
    have 1: "consistent (step C pol m (WorkerStep w))"
      using r by (simp add: running_def consistent_step)
    have 2: "covered (settle ?m')"
      using effect_covered [OF e _ h] r w len by (simp add: running_def)
    have 3: "outcome_ok C (settle ?m')"
      using effect_outcome [OF e] r by (simp add: running_def)
    have 4: "complete_ok (step C pol m (WorkerStep w))"
      using r by (simp add: running_def complete_ok_step)
    have 5: "length (pool (settle ?m')) = n"
      using effect_pool [OF e] len by simp
    have 6: "map video_name (tasks (settle ?m')) = names"
      using effect_names [OF e] r by (simp add: running_def)
    from settle_running_stage [OF pr' nc'] 1 2 3 4 5 6 nc' show ?thesis
      unfolding st running_def by (simp add: remaining_def)
  qed
qed

lemma running_work_left:
  assumes r: "running C n names m"
  shows "work_left (step C pol m (WorkerStep w)) \<le> work_left m"
proof (cases "job_stage m = Processing")
  case False
  with r have "job_stage m = Complete" by (simp add: running_def)
  with r show ?thesis by (simp add: running_complete_step)
next
  case True
  from running_step_cases [OF r True, of pol w] show ?thesis
    by (auto dest: effect_work_left)
qed

lemma running_progress:
  assumes r: "running C n names m" and pr: "job_stage m = Processing" and w: "w < n"
    and en: "current_task (pool m ! w) \<noteq> None \<or> next_queued (tasks m) \<noteq> None"
  shows "work_left (step C pol m (WorkerStep w)) < work_left m"
proof -
  from r have h: "holds_ok m" and nc: "\<not> cancel_flag m" and len: "length (pool m) = n"
    by (simp_all add: running_def consistent_def)
  from w len have "w < length (pool m)" by simp
  from worker_step_effect [OF h pr nc this, of C pol] en
  have "effect C w m (worker_step C pol w m)" by auto
  from effect_work_left [OF this] show ?thesis by (simp add: step_worker)
qed

lemma running_frame:
  assumes r: "running C n names m" and pr: "job_stage m = Processing"
    and v: "v < n" and cur: "current_task (pool m ! v) = Some i" and ne: "w \<noteq> v"
  shows "current_task (pool (step C pol m (WorkerStep w)) ! v) = Some i
         \<and> job_stage (step C pol m (WorkerStep w)) = Processing"
proof -
  from running_step_cases [OF r pr, of pol w] show ?thesis
  proof
    assume "step C pol m (WorkerStep w) = m"
    with cur pr show ?thesis by simp
  next
    assume a: "w < n \<and> effect C w m (worker_step C pol w m)
               \<and> step C pol m (WorkerStep w) = settle (worker_step C pol w m)"
    let ?m' = "worker_step C pol w m"
    from a have e: "effect C w m ?m'" and st: "step C pol m (WorkerStep w) = settle ?m'"
      by simp_all
    from r have len: "length (pool m) = n" by (simp add: running_def)
    from effect_pool [OF e, of v] ne cur have c': "current_task (pool ?m' ! v) = Some i"
      and len': "length (pool ?m') = length (pool m)" by simp_all
    from len' len v c' have "settle ?m' = ?m'" by (intro settle_busy [of v]) simp_all
    with st c' pr show ?thesis by simp
  qed
qed

lemma running_unfinished:
  assumes r: "running C n names m" and pr: "job_stage m = Processing"
  shows "next_queued (tasks m) \<noteq> None \<or> (\<exists>v<n. current_task (pool m ! v) \<noteq> None)"
proof (cases "all_idle m")
  case False
  with r show ?thesis by (auto simp: all_idle_iff running_def)
next
  case True
  with r pr have "remaining m \<noteq> 0" by (simp add: running_def)
  then obtain t where t: "t \<in> set (tasks m)" "\<not> finished (status t)"
    unfolding remaining_def by (auto simp: filter_empty_conv)
  then obtain i where i: "i < length (tasks m)" "tasks m ! i = t"
    by (auto simp: in_set_conv_nth)
  show ?thesis
  proof (cases "status t = Queued")
    case True
    with t(1) next_queued_None [of "tasks m" t] show ?thesis by auto
  next
    case False
    with t(2) have "in_flight (status t)"
      by (cases "status t") (simp_all add: finished_def)
    with r i obtain v where "v < length (pool m)" "current_task (pool m ! v) = Some i"
      unfolding running_def covered_def by blast
    with r show ?thesis by (auto simp: running_def)
  qed
qed

text \<open>Runs of worker steps.\<close>

lemma running_run:
  assumes "running C n names m" and "list_all is_worker_step evs"
  shows "running C n names (run C pol m evs) \<and> work_left (run C pol m evs) \<le> work_left m"
  using assms
proof (induction evs arbitrary: m)
  case Nil
  then show ?case by (simp add: run_Nil)
next
  case (Cons e evs)
  from Cons.prems(2) obtain w where e: "e = WorkerStep w" by (cases e) simp_all
  from Cons.prems(1) have r: "running C n names (step C pol m e)"
    unfolding e by (rule running_step)
  from Cons.prems(1) have le: "work_left (step C pol m e) \<le> work_left m"
    unfolding e by (rule running_work_left)
  from Cons.IH [OF r] Cons.prems(2) le show ?case by (simp add: run_Cons)
qed

lemma running_complete_run:
  assumes "running C n names m" and "job_stage m = Complete" and "list_all is_worker_step evs"
  shows "run C pol m evs = m"
  using assms
proof (induction evs)
  case Nil
  then show ?case by (simp add: run_Nil)
next
  case (Cons e evs)
  from Cons.prems(3) obtain w where e: "e = WorkerStep w" by (cases e) simp_all
  from Cons show ?case by (simp add: run_Cons e running_complete_step)
qed

lemma running_frame_run:
  assumes "running C n names m" and "job_stage m = Processing" and "v < n"
    and "current_task (pool m ! v) = Some i" and "v \<notin> set ws"
  shows "current_task (pool (run C pol m (map WorkerStep ws)) ! v) = Some i
         \<and> job_stage (run C pol m (map WorkerStep ws)) = Processing"
  using assms
proof (induction ws arbitrary: m)
  case Nil
  then show ?case by (simp add: run_Nil)
next
  case (Cons w ws)
  from Cons.prems have ne: "w \<noteq> v" by auto
  from running_frame [OF Cons.prems(1,2,3,4) ne, of pol]
  have f: "current_task (pool (step C pol m (WorkerStep w)) ! v) = Some i"
    "job_stage (step C pol m (WorkerStep w)) = Processing" by simp_all
  from Cons.prems(1) have r: "running C n names (step C pol m (WorkerStep w))"
    by (rule running_step)
  from Cons.IH [OF r f(2) Cons.prems(3) f(1)] Cons.prems(5) show ?case
    by (simp add: run_Cons)
qed

lemma worker_steps: "list_all is_worker_step (map WorkerStep ws)"
  by (induction ws) simp_all

lemma round_robin_worker_steps: "list_all is_worker_step (round_robin n k)"
  by (induction k) (simp_all add: round_robin_def worker_steps)

lemma round_robin_Suc: "round_robin n (Suc k) = map WorkerStep [0..<n] @ round_robin n k"
  by (simp add: round_robin_def)

lemma upt_split: "v < n \<Longrightarrow> [0..<n] = [0..<v] @ v # [Suc v..<n]"
  using upt_add_eq_append [of 0 v "n - v"] upt_conv_Cons [of v n] by simp

text \<open>One round in which every worker takes one step moves the job strictly forward.\<close>

lemma round_progress:
  assumes r: "running C n names m" and pr: "job_stage m = Processing" and n0: "0 < n"
  shows "work_left (run C pol m (map WorkerStep [0..<n])) < work_left m"
proof -
  have key: "work_left (run C pol m (map WorkerStep [0..<n])) < work_left m"
    if v: "v < n"
      and r1: "running C n names (run C pol m (map WorkerStep [0..<v]))"
      and pr1: "job_stage (run C pol m (map WorkerStep [0..<v])) = Processing"
      and en: "current_task (pool (run C pol m (map WorkerStep [0..<v])) ! v) \<noteq> None
               \<or> next_queued (tasks (run C pol m (map WorkerStep [0..<v]))) \<noteq> None"
      and le: "work_left (run C pol m (map WorkerStep [0..<v])) \<le> work_left m"
    for v
  proof -
    let ?m1 = "run C pol m (map WorkerStep [0..<v])"
    let ?m2 = "step C pol ?m1 (WorkerStep v)"
    have split: "run C pol m (map WorkerStep [0..<n])
                   = run C pol ?m2 (map WorkerStep [Suc v..<n])"
      by (simp add: upt_split [OF v] run_append run_Cons)
    have "work_left ?m2 < work_left ?m1"
      by (rule running_progress [OF r1 pr1 v en])
    moreover have "work_left (run C pol ?m2 (map WorkerStep [Suc v..<n])) \<le> work_left ?m2"
      using running_run [OF running_step [OF r1] worker_steps] by blast
    ultimately show ?thesis using le by (simp add: split)
  qed
  from running_unfinished [OF r pr] show ?thesis
  proof
    assume q: "next_queued (tasks m) \<noteq> None"
    show ?thesis
      by (rule key [of 0]) (use n0 r pr q in \<open>simp_all add: run_Nil\<close>)
  next
    assume "\<exists>v<n. current_task (pool m ! v) \<noteq> None"
    then obtain v i where v: "v < n" and cur: "current_task (pool m ! v) = Some i" by auto
    have notin: "v \<notin> set [0..<v]" by simp
    from running_frame_run [OF r pr v cur notin, of pol]
    have f: "current_task (pool (run C pol m (map WorkerStep [0..<v])) ! v) = Some i"
      "job_stage (run C pol m (map WorkerStep [0..<v])) = Processing" by simp_all
    from running_run [OF r worker_steps, of pol "[0..<v]"]
    have r1: "running C n names (run C pol m (map WorkerStep [0..<v]))"
      and le: "work_left (run C pol m (map WorkerStep [0..<v])) \<le> work_left m" by simp_all
    show ?thesis
      by (rule key [OF v r1 f(2) _ le]) (simp add: f(1))
  qed
qed

lemma processing_work_left:
  assumes r: "running C n names m" and pr: "job_stage m = Processing"
  shows "0 < work_left m"
proof -
  from running_unfinished [OF r pr] show ?thesis
  proof
    assume "next_queued (tasks m) \<noteq> None"
    then obtain i where "next_queued (tasks m) = Some i" by auto
    from next_queued_Some [OF this] show ?thesis
      by (intro work_left_pos [of "tasks m ! i"]) (simp_all add: finished_def)
  next
    assume "\<exists>v<n. current_task (pool m ! v) \<noteq> None"
    then obtain v i where "v < n" "current_task (pool m ! v) = Some i" by auto
    with r have "i < length (tasks m)" "in_flight (status (tasks m ! i))"
      by (auto simp: running_def consistent_def holds_ok_def)
    then show ?thesis
      by (intro work_left_pos [of "tasks m ! i"]) (auto simp: finished_def in_flight_def)
  qed
qed

lemma rounds_progress:
  assumes "running C n names m" and "0 < n"
  shows "running C n names (run C pol m (round_robin n k))
         \<and> (job_stage (run C pol m (round_robin n k)) = Complete
             \<or> work_left (run C pol m (round_robin n k)) + k \<le> work_left m)"
  using assms
proof (induction k arbitrary: m)
  case 0
  then show ?case by (simp add: round_robin_def run_Nil)
next
  case (Suc k)
  let ?m1 = "run C pol m (map WorkerStep [0..<n])"
  have eq: "run C pol m (round_robin n (Suc k)) = run C pol ?m1 (round_robin n k)"
    by (simp add: round_robin_Suc run_append)
  from running_run [OF Suc.prems(1) worker_steps, of pol "[0..<n]"]
  have r1: "running C n names ?m1" by simp
  note IH = Suc.IH [OF r1 Suc.prems(2)]
  show ?case
  proof (cases "job_stage m = Processing")
    case True
    from round_progress [OF Suc.prems(1) True Suc.prems(2), of pol] IH show ?thesis
      unfolding eq by auto
  next
    case False
    with Suc.prems(1) have c: "job_stage m = Complete" by (simp add: running_def)
    have "run C pol m (round_robin n (Suc k)) = m"
      by (rule running_complete_run [OF Suc.prems(1) c round_robin_worker_steps])
    with c Suc.prems(1) show ?thesis by simp
  qed
qed

lemma rounds_complete:
  assumes r: "running C n names m" and n0: "0 < n" and k: "5 * length names \<le> k"
  shows "job_stage (run C pol m (round_robin n k)) = Complete"
proof (rule ccontr)
  let ?m' = "run C pol m (round_robin n k)"
  assume nc: "job_stage ?m' \<noteq> Complete"
  from rounds_progress [OF r n0, of pol k] nc
  have r': "running C n names ?m'" and le: "work_left ?m' + k \<le> work_left m" by simp_all
  from r' nc have "job_stage ?m' = Processing" by (simp add: running_def)
  from processing_work_left [OF r' this] have "0 < work_left ?m'" .
  moreover from r have "length (tasks m) = length names"
    by (auto simp: running_def dest: arg_cong [where f = length])
  with work_left_bound [of m] have "work_left m \<le> 5 * length names" by simp
  ultimately show False using le k by simp
qed

lemma new_tasks_queued: "t \<in> set (map new_task names) \<Longrightarrow> status t = Queued"
  by (auto simp: new_task_def)

lemma video_name_new_tasks: "map video_name (map new_task names) = names"
  by (induction names) (simp_all add: new_task_def)

lemma all_idle_new_workers: "list_all (\<lambda>w. current_task w = None) (map new_worker devs)"
  by (induction devs) (simp_all add: new_worker_def)

lemma running_started:
  "running C (length devs) names (run C pol (init devs) [Start names, ModelsReady])"
proof -
  let ?m = "run C pol (init devs) [Start names, ModelsReady]"
  let ?p = "(init devs)\<lparr>job_stage := Processing, tasks := map new_task names,
              pool := map new_worker devs, total := length names, completed := 0,
              failed := 0, cancel_flag := False, job_error := None, pulled := []\<rparr>"
  have m: "?m = settle ?p"
    by (simp add: run_def step_def handle_def start_job_def active_def init_def settle_def
        models_ready_def)
  have idle: "all_idle ?p" by (simp add: all_idle_def all_idle_new_workers)
  have 1: "consistent ?m" by (rule consistent_reachable)
  have 2: "complete_ok ?m" by (rule complete_ok_reachable)
  have 3: "covered ?m"
    unfolding m covered_settle
    by (simp add: covered_def new_task_def)
  have 4: "outcome_ok C ?m"
    unfolding m outcome_ok_settle
    by (auto simp: outcome_ok_def new_task_def)
  have 5: "\<not> cancel_flag ?m" "length (pool ?m) = length devs"
    "map video_name (tasks ?m) = names"
    unfolding m using video_name_new_tasks [of names] by (simp_all del: map_map)
  have 6: "(job_stage ?m = Processing \<or> job_stage ?m = Complete)
           \<and> (job_stage ?m = Processing \<longrightarrow> \<not> (all_idle ?m \<and> remaining ?m = 0))"
    unfolding m using settle_running_stage [of ?p] by simp
  from 1 2 3 4 5 6 show ?thesis by (simp add: running_def)
qed

lemma failed_filter:
  assumes "\<forall>t\<in>set ts. finished (status t)
             \<and> (status t = Done \<longrightarrow> \<not> P (video_name t))
             \<and> (status t = Failed \<longrightarrow> P (video_name t))"
  shows "count_status Failed ts = length (filter P (map video_name ts))"
  using assms by (induction ts) (auto simp: count_status_def finished_def)

lemma running_complete_counters:
  assumes r: "running C n names m" and c: "job_stage m = Complete"
  shows "failed m = length (filter (pipeline_fails C) names)
         \<and> completed m + failed m = length names"
proof -
  from r c have rem: "remaining m = 0" by (simp add: running_def complete_ok_def)
  then have fin: "\<forall>t\<in>set (tasks m). finished (status t)"
    by (auto simp: remaining_def filter_empty_conv)
  from r have cnt: "counters_ok m" and o: "outcome_ok C m"
    and nm: "map video_name (tasks m) = names"
    by (simp_all add: running_def consistent_def)
  from fin o have "count_status Failed (tasks m)
      = length (filter (pipeline_fails C) (map video_name (tasks m)))"
    by (intro failed_filter) (simp add: outcome_ok_def)
  with cnt nm have f: "failed m = length (filter (pipeline_fails C) names)"
    by (simp add: counters_ok_def)
  from counters_sum [OF cnt] rem cnt nm have "completed m + failed m = length names"
    by (auto simp: counters_ok_def dest: arg_cong [where f = length])
  with f show ?thesis by simp
qed

lemma single_failure_count:
  assumes one: "length (filter (decode_fails C) names) = 1"
    and others: "\<forall>v\<in>set names. \<not> decode_fails C v \<longrightarrow> \<not> pipeline_fails C v"
  shows "length (filter (pipeline_fails C) names) = 1"
proof -
  have "filter (pipeline_fails C) names = filter (decode_fails C) names"
    using others by (intro filter_cong) (auto dest: pipeline_fails_decode)
  with one show ?thesis by simp
qed

text \<open>
  C8: in a job of N videos with at least one worker, where exactly one video fails to
  decode and every other pipeline succeeds, and neither a stop nor a fatal error occurs:
  whatever the interleaving of the workers' steps so far, the job is never in \<open>Error\<close> (nor
  \<open>Stopped\<close>); whenever it is \<open>Complete\<close> the counters are one failed and \<open>N - 1\<close> completed;
  and letting every worker take its steps in turn for \<open>5 * N\<close> more rounds brings the job
  to \<open>Complete\<close> with exactly these counters.
\<close>

theorem single_decode_failure:
  assumes devs: "devs \<noteq> []"
    and one: "length (filter (decode_fails C) names) = 1"
    and others: "\<forall>v\<in>set names. \<not> decode_fails C v \<longrightarrow> \<not> pipeline_fails C v"
    and evs: "list_all is_worker_step evs"
    and m: "m = run C pol (init devs) (Start names # ModelsReady # evs)"
    and m': "m' = run C pol m (round_robin (length devs) (5 * length names))"
  shows "job_stage m \<noteq> Error \<and> job_stage m \<noteq> Stopped
         \<and> (job_stage m = Complete \<longrightarrow> failed m = 1 \<and> completed m = length names - 1)
         \<and> job_stage m' = Complete \<and> failed m' = 1 \<and> completed m' = length names - 1"
proof -
  let ?m0 = "run C pol (init devs) [Start names, ModelsReady]"
  have m_eq: "m = run C pol ?m0 evs"
    unfolding m by (simp add: run_def)
  have r: "running C (length devs) names m"
    unfolding m_eq using running_run [OF running_started evs] by blast
  from rounds_progress [OF r, of pol "5 * length names"] devs
  have r': "running C (length devs) names m'" unfolding m' by simp
  from devs have n0: "0 < length devs" by simp
  have c': "job_stage m' = Complete"
    unfolding m' by (rule rounds_complete [OF r n0]) simp
  note cnt = single_failure_count [OF one others]
  from r have st: "job_stage m \<noteq> Error \<and> job_stage m \<noteq> Stopped"
    by (auto simp: running_def)
  have "failed m = 1 \<and> completed m = length names - 1" if "job_stage m = Complete"
    using running_complete_counters [OF r that] cnt by linarith
  moreover have "failed m' = 1 \<and> completed m' = length names - 1"
    using running_complete_counters [OF r' c'] cnt by linarith
  ultimately show ?thesis using st c' by simp
qed

theorem single_decode_failure_witness:
  "[''cuda:0'', ''cuda:1''] \<noteq> []
   \<and> length (filter (decode_fails sample_collaborators) sample_videos) = 1
   \<and> list_all is_worker_step [WorkerStep 1, WorkerStep 0, WorkerStep 1]
   \<and> job_stage
        (run sample_collaborators FinishCurrent
           (run sample_collaborators FinishCurrent (init [''cuda:0'', ''cuda:1''])
              (Start sample_videos # ModelsReady # [WorkerStep 1, WorkerStep 0, WorkerStep 1]))
           (round_robin 2 15)) = Complete
   \<and> failed
        (run sample_collaborators FinishCurrent
           (run sample_collaborators FinishCurrent (init [''cuda:0'', ''cuda:1''])
              (Start sample_videos # ModelsReady # [WorkerStep 1, WorkerStep 0, WorkerStep 1]))
           (round_robin 2 15)) = 1
   \<and> completed
        (run sample_collaborators FinishCurrent
           (run sample_collaborators FinishCurrent (init [''cuda:0'', ''cuda:1''])
              (Start sample_videos # ModelsReady # [WorkerStep 1, WorkerStep 0, WorkerStep 1]))
           (round_robin 2 15)) = 2"
proof -
  have one: "length (filter (decode_fails sample_collaborators) sample_videos) = 1"
    by (simp add: decode_fails_def sample_collaborators_def sample_videos_def)
  have others: "\<forall>v\<in>set sample_videos.
      \<not> decode_fails sample_collaborators v \<longrightarrow> \<not> pipeline_fails sample_collaborators v"
    by (simp add: decode_fails_def pipeline_fails_def run_pipeline_def sample_collaborators_def
        sample_videos_def)
  have d: "[''cuda:0'', ''cuda:1''] \<noteq> ([] :: string list)" by simp
  have w: "list_all is_worker_step [WorkerStep 1, WorkerStep 0, WorkerStep 1]" by simp
  have n: "length [''cuda:0'', ''cuda:1''] = 2" by simp
  have k: "5 * length sample_videos = 15" by (simp add: sample_videos_def)
  have l: "length sample_videos - 1 = 2" by (simp add: sample_videos_def)
  note t = single_decode_failure [OF d one others w refl refl, of FinishCurrent,
      unfolded n k l]
  from t d one w show ?thesis by blast
qed

end
